theory Spec2Isabelle
  imports Main "HOL-Library.Word"
begin

unbundle bit_operations_syntax

section \<open>Machine model\<close>

text \<open>
  The embedding is of \<^verbatim>\<open>cityhash.c\<close> on an LP64 little-endian host: \<^verbatim>\<open>uint64_t\<close>,
  \<^verbatim>\<open>size_t\<close> and \<^verbatim>\<open>signed long\<close> are 64 bits wide, \<^verbatim>\<open>uint32_t\<close> is 32 bits wide, and
  \<^verbatim>\<open>LITTLE_ENDIAN\<close> is defined, so that the two \<^verbatim>\<open>_in_expected_order\<close> macros are the
  identity.

  Memory is a list of bytes \<open>S\<close>, and a pointer into it is an integer offset \<open>s\<close>.
  A read outside \<open>S\<close> is the error \<open>OutOfBounds\<close>; the size of \<open>S\<close> fits \<^verbatim>\<open>size_t\<close>, and
  nothing can be read from a memory that is larger. A null pointer is modelled as
  offset \<open>0\<close> into the empty memory \<open>[]\<close>: every read through it fails.

  A failed \<^verbatim>\<open>assert\<close> is the error \<open>AssertFail\<close>; a shift of a 64-bit value by 64 or
  more positions, which C leaves undefined, is the error \<open>UndefinedShift\<close>; a null pointer
  passed to \<^verbatim>\<open>memcpy\<close> as the source of a copy, which C leaves undefined even when no
  byte is copied, is the error \<open>NullPointer\<close>.
\<close>

type_synonym byte = "8 word"
type_synonym u32 = "32 word"
type_synonym u64 = "64 word"
type_synonym size_t = "64 word"

text \<open>\<^verbatim>\<open>uint128_t\<close> is declared in \<^verbatim>\<open>cityhash.h\<close>; the source builds it as \<^verbatim>\<open>{a, b}\<close> and
  reads the fields \<^verbatim>\<open>.a\<close> and \<^verbatim>\<open>.b\<close>. It is the pair \<open>(a, b)\<close> here, and \<^verbatim>\<open>uint256_t\<close>
  is the tuple \<open>(a, b, c, d)\<close>.\<close>

type_synonym uint128 = "u64 \<times> u64"
type_synonym uint256 = "u64 \<times> u64 \<times> u64 \<times> u64"

datatype error = OutOfBounds | AssertFail | UndefinedShift | NullPointer

text \<open>Sequencing of two steps: the first error ends the computation.\<close>

definition seq :: "error + 'a \<Rightarrow> ('a \<Rightarrow> error + 'b) \<Rightarrow> error + 'b" where
  "seq m f = (case m of Inl e \<Rightarrow> Inl e | Inr x \<Rightarrow> f x)"

text \<open>C's \<^verbatim>\<open>x << n\<close> and \<^verbatim>\<open>x >> n\<close> on \<^verbatim>\<open>uint64_t\<close> with a shift count that is not a
  constant of the source.\<close>

definition shl64 :: "u64 \<Rightarrow> size_t \<Rightarrow> error + u64" where
  "shl64 x n = (if n < 64 then Inr (push_bit (unat n) x) else Inl UndefinedShift)"

definition shr64 :: "u64 \<Rightarrow> size_t \<Rightarrow> error + u64" where
  "shr64 x n = (if n < 64 then Inr (drop_bit (unat n) x) else Inl UndefinedShift)"

section \<open>Constants and primitives\<close>

definition k0 :: u64 where "k0 = 0xc3a5c85c97cb3127"
definition k1 :: u64 where "k1 = 0xb492b66fbe98f273"
definition k2 :: u64 where "k2 = 0x9ae16a3b2f90404f"
definition k3 :: u64 where "k3 = 0xc949d7c7509e6557"

text \<open>The value of a byte string read as a little-endian integer.\<close>

fun le_word :: "byte list \<Rightarrow> 'a::len word" where
  "le_word [] = 0"
| "le_word (b # bs) = ucast b OR push_bit 8 (le_word bs)"

definition in_bounds :: "byte list \<Rightarrow> int \<Rightarrow> nat \<Rightarrow> bool" where
  "in_bounds S p n \<longleftrightarrow> 0 \<le> p \<and> p + int n \<le> int (length S) \<and> length S < 2 ^ 64"

definition uload64 :: "byte list \<Rightarrow> int \<Rightarrow> error + u64" where
  "uload64 S p = (if in_bounds S p 8 then Inr (le_word (take 8 (drop (nat p) S)))
                  else Inl OutOfBounds)"

definition uload32 :: "byte list \<Rightarrow> int \<Rightarrow> error + u32" where
  "uload32 S p = (if in_bounds S p 4 then Inr (le_word (take 4 (drop (nat p) S)))
                  else Inl OutOfBounds)"

text \<open>\<^verbatim>\<open>s[i]\<close>.\<close>

definition load8 :: "byte list \<Rightarrow> int \<Rightarrow> error + byte" where
  "load8 S p = (if in_bounds S p 1 then Inr (S ! nat p) else Inl OutOfBounds)"

definition fetch64 :: "byte list \<Rightarrow> int \<Rightarrow> error + u64" where
  "fetch64 S p = uload64 S p"

definition fetch32 :: "byte list \<Rightarrow> int \<Rightarrow> error + u32" where
  "fetch32 S p = uload32 S p"

definition rotate64 :: "u64 \<Rightarrow> size_t \<Rightarrow> error + u64" where
  "rotate64 val shift =
     (if \<not> shift < 64 then Inl AssertFail
      else seq (shr64 val shift) (\<lambda>r.
           seq (shl64 val (64 - shift)) (\<lambda>l.
           Inr (r OR l))))"

definition smix :: "u64 \<Rightarrow> u64" where
  "smix val = val XOR drop_bit 47 val"

text \<open>\<^verbatim>\<open>hash_128_to_64\<close> is defined in \<^verbatim>\<open>cityhash.h\<close>, which is not part of the
  sources at hand. It is the parameter \<open>h\<close> of every function that reaches it.\<close>

definition hash_16 :: "(uint128 \<Rightarrow> u64) \<Rightarrow> u64 \<Rightarrow> u64 \<Rightarrow> u64" where
  "hash_16 h u v = h (u, v)"

section \<open>The 64-bit family\<close>

definition hash_0_to_16 :: "(uint128 \<Rightarrow> u64) \<Rightarrow> byte list \<Rightarrow> int \<Rightarrow> size_t \<Rightarrow> error + u64" where
  "hash_0_to_16 h S s len =
     (if len > 8 then
        seq (fetch64 S s) (\<lambda>a.
        seq (fetch64 S (s + uint len - 8)) (\<lambda>b.
        seq (rotate64 (b + len) len) (\<lambda>r.
        Inr (hash_16 h a r XOR b))))
      else if len \<ge> 4 then
        seq (fetch32 S s) (\<lambda>a32.
        let a = (ucast a32 :: u64) in
        seq (fetch32 S (s + uint len - 4)) (\<lambda>t.
        Inr (hash_16 h (len + push_bit 3 a) (ucast t))))
      else if len > 0 then
        seq (load8 S s) (\<lambda>a.
        seq (load8 S (s + uint (drop_bit 1 len))) (\<lambda>b.
        seq (load8 S (s + uint len - 1)) (\<lambda>c.
        let y = (ucast a :: u32) + push_bit 8 (ucast b :: u32);
            z = (ucast (len + ucast (push_bit 2 (ucast c :: u32))) :: u32)
        in Inr (smix (ucast y * k2 XOR ucast z * k3) * k2))))
      else Inr k2)"

definition hash_17_to_32 :: "(uint128 \<Rightarrow> u64) \<Rightarrow> byte list \<Rightarrow> int \<Rightarrow> size_t \<Rightarrow> error + u64" where
  "hash_17_to_32 h S s len =
     seq (fetch64 S s) (\<lambda>a0.
     let a = a0 * k1 in
     seq (fetch64 S (s + 8)) (\<lambda>b.
     seq (fetch64 S (s + uint len - 8)) (\<lambda>c0.
     let c = c0 * k2 in
     seq (fetch64 S (s + uint len - 16)) (\<lambda>d0.
     let d = d0 * k0 in
     seq (rotate64 (a - b) 43) (\<lambda>r1.
     seq (rotate64 c 30) (\<lambda>r2.
     seq (rotate64 (b XOR k3) 20) (\<lambda>r3.
     Inr (hash_16 h (r1 + r2 + d) (a + r3 - c + len)))))))))"

definition weak_hash_32_with_seeds ::
  "u64 \<Rightarrow> u64 \<Rightarrow> u64 \<Rightarrow> u64 \<Rightarrow> u64 \<Rightarrow> u64 \<Rightarrow> error + uint128" where
  "weak_hash_32_with_seeds w x y z a0 b0 =
     (let a1 = a0 + w in
      seq (rotate64 (b0 + a1 + z) 21) (\<lambda>b1.
      let c = a1;
          a2 = a1 + x;
          a3 = a2 + y in
      seq (rotate64 a3 44) (\<lambda>r.
      let b2 = b1 + r in
      Inr (a3 + z, b2 + c))))"

definition weak_hash_32_with_seeds_raw ::
  "byte list \<Rightarrow> int \<Rightarrow> u64 \<Rightarrow> u64 \<Rightarrow> error + uint128" where
  "weak_hash_32_with_seeds_raw S s a b =
     seq (fetch64 S s) (\<lambda>w.
     seq (fetch64 S (s + 8)) (\<lambda>x.
     seq (fetch64 S (s + 16)) (\<lambda>y.
     seq (fetch64 S (s + 24)) (\<lambda>z.
     weak_hash_32_with_seeds w x y z a b))))"

lemma seq_InrE:
  assumes "seq m f = Inr y"
  obtains x where "m = Inr x" and "f x = Inr y"
  using assms by (cases m) (auto simp: seq_def)

lemma fetch64_InrD: "fetch64 S p = Inr x \<Longrightarrow> in_bounds S p 8"
  by (simp add: fetch64_def uload64_def split: if_splits)

lemma weak_raw_in_bounds:
  assumes "weak_hash_32_with_seeds_raw S p a b = Inr r"
  shows "in_bounds S p 32"
proof -
  from assms obtain w z where "fetch64 S p = Inr w" "fetch64 S (p + 24) = Inr z"
    unfolding weak_hash_32_with_seeds_raw_def by (elim seq_InrE) blast
  then have "in_bounds S p 8" "in_bounds S (p + 24) 8"
    by (auto dest: fetch64_InrD)
  then show ?thesis by (simp add: in_bounds_def)
qed

definition hash_33_to_64 :: "byte list \<Rightarrow> int \<Rightarrow> size_t \<Rightarrow> error + u64" where
  "hash_33_to_64 S s len =
     seq (fetch64 S (s + 24)) (\<lambda>z0.
     seq (fetch64 S s) (\<lambda>f0.
     seq (fetch64 S (s + uint len - 16)) (\<lambda>f1.
     let a0 = f0 + (len + f1) * k0 in
     seq (rotate64 (a0 + z0) 52) (\<lambda>b0.
     seq (rotate64 a0 37) (\<lambda>c0.
     seq (fetch64 S (s + 8)) (\<lambda>f2.
     let a1 = a0 + f2 in
     seq (rotate64 a1 7) (\<lambda>r0.
     let c1 = c0 + r0 in
     seq (fetch64 S (s + 16)) (\<lambda>f3.
     let a2 = a1 + f3;
         vf = a2 + z0 in
     seq (rotate64 a2 31) (\<lambda>r1.
     let vs = b0 + r1 + c1 in
     seq (fetch64 S (s + 16)) (\<lambda>f4.
     seq (fetch64 S (s + uint len - 32)) (\<lambda>f5.
     let a3 = f4 + f5 in
     seq (fetch64 S (s + uint len - 8)) (\<lambda>z1.
     seq (rotate64 (a3 + z1) 52) (\<lambda>b1.
     seq (rotate64 a3 37) (\<lambda>c2.
     seq (fetch64 S (s + uint len - 24)) (\<lambda>f6.
     let a4 = a3 + f6 in
     seq (rotate64 a4 7) (\<lambda>r2.
     let c3 = c2 + r2 in
     seq (fetch64 S (s + uint len - 16)) (\<lambda>f7.
     let a5 = a4 + f7;
         wf = a5 + z1 in
     seq (rotate64 a5 31) (\<lambda>r3.
     let ws = b1 + r3 + c3;
         r = smix ((vf + ws) * k2 + (wf + vs) * k0)
     in Inr (smix (r * k0 + vs) * k2)))))))))))))))))))"

text \<open>The registers of the long paths: \<open>(x, y, z, v, w)\<close>.\<close>

type_synonym regs = "u64 \<times> u64 \<times> u64 \<times> uint128 \<times> uint128"

text \<open>Lines 217 to 224 of \<^verbatim>\<open>cityhash64\<close>: the registers before the loop.\<close>

definition cityhash64_init :: "byte list \<Rightarrow> int \<Rightarrow> size_t \<Rightarrow> error + regs" where
  "cityhash64_init S s len =
     seq (fetch64 S s) (\<lambda>x0.
     seq (fetch64 S (s + uint len - 16)) (\<lambda>f1.
     let y0 = f1 XOR k1 in
     seq (fetch64 S (s + uint len - 56)) (\<lambda>f2.
     let z0 = f2 XOR k0 in
     seq (weak_hash_32_with_seeds_raw S (s + uint len - 64) len y0) (\<lambda>v.
     seq (weak_hash_32_with_seeds_raw S (s + uint len - 32) (len * k1) k0) (\<lambda>w.
     let z1 = z0 + smix (snd v) * k1 in
     seq (rotate64 (z1 + x0) 39) (\<lambda>r0.
     let x1 = r0 * k1 in
     seq (rotate64 y0 33) (\<lambda>r1.
     let y1 = r1 * k1 in
     Inr (x1, y1, z1, v, w))))))))"

text \<open>The body of the loop of \<^verbatim>\<open>cityhash64\<close> on the 64-byte chunk at \<open>s\<close>, up to and
  including \<^verbatim>\<open>swap64(&z, &x)\<close>. The loop of \<^verbatim>\<open>cityhash128_with_seed\<close> repeats the same
  eight statements twice.\<close>

definition chunk64 :: "byte list \<Rightarrow> int \<Rightarrow> regs \<Rightarrow> error + regs" where
  "chunk64 S s st =
     (case st of (x0, y0, z0, v, w) \<Rightarrow>
     seq (fetch64 S (s + 16)) (\<lambda>f0.
     seq (rotate64 (x0 + y0 + fst v + f0) 37) (\<lambda>r0.
     let x1 = r0 * k1 in
     seq (fetch64 S (s + 48)) (\<lambda>f1.
     seq (rotate64 (y0 + snd v + f1) 42) (\<lambda>r1.
     let y1 = r1 * k1;
         x2 = x1 XOR snd w;
         y2 = y1 XOR fst v in
     seq (rotate64 (z0 XOR fst w) 33) (\<lambda>z1.
     seq (weak_hash_32_with_seeds_raw S s (snd v * k1) (x2 + fst w)) (\<lambda>v'.
     seq (weak_hash_32_with_seeds_raw S (s + 32) (z1 + snd w) y2) (\<lambda>w'.
     Inr (z1, y2, x2, v', w')))))))))"

lemma chunk64_in_bounds:
  assumes "chunk64 S s st = Inr st'"
  shows "0 \<le> s + 48 \<and> s + 56 \<le> int (length S)"
proof -
  obtain x0 y0 z0 v w where st: "st = (x0, y0, z0, v, w)"
    by (cases st) auto
  from assms show ?thesis
    unfolding st chunk64_def seq_def fetch64_def uload64_def in_bounds_def
    by (simp split: sum.splits if_splits)
qed

text \<open>The \<^verbatim>\<open>do ... while (len != 0)\<close> loop of \<^verbatim>\<open>cityhash64\<close>, with \<^verbatim>\<open>s += 64\<close> and
  \<^verbatim>\<open>len -= 64\<close> after each chunk. It ends because a chunk that starts beyond the end
  of the memory fails.\<close>

function cityhash64_loop :: "byte list \<Rightarrow> int \<Rightarrow> size_t \<Rightarrow> regs \<Rightarrow> error + regs" where
  "cityhash64_loop S s len st =
     (case chunk64 S s st of
        Inl e \<Rightarrow> Inl e
      | Inr st' \<Rightarrow>
          if len - 64 \<noteq> 0 then cityhash64_loop S (s + 64) (len - 64) st' else Inr st')"
  by pat_completeness auto
termination
proof (relation "measure (\<lambda>(S, s, len, st). nat (int (length S) - s))", goal_cases)
  case 1
  show ?case by simp
next
  case (2 S s len st st')
  from chunk64_in_bounds [OF 2(1)] show ?case by simp
qed

declare cityhash64_loop.simps [simp del]

definition cityhash64 :: "(uint128 \<Rightarrow> u64) \<Rightarrow> byte list \<Rightarrow> int \<Rightarrow> size_t \<Rightarrow> error + u64" where
  "cityhash64 h S s len =
     (if len \<le> 32 then
        (if len \<le> 16 then hash_0_to_16 h S s len else hash_17_to_32 h S s len)
      else if len \<le> 64 then hash_33_to_64 S s len
      else
        seq (cityhash64_init S s len) (\<lambda>st0.
        seq (cityhash64_loop S s ((len - 1) AND NOT 63) st0) (\<lambda>st.
        case st of (x, y, z, v, w) \<Rightarrow>
          Inr (hash_16 h (hash_16 h (fst v) (fst w) + smix y * k1 + z)
                         (hash_16 h (snd v) (snd w) + x)))))"

definition cityhash64_with_seeds ::
  "(uint128 \<Rightarrow> u64) \<Rightarrow> byte list \<Rightarrow> int \<Rightarrow> size_t \<Rightarrow> u64 \<Rightarrow> u64 \<Rightarrow> error + u64" where
  "cityhash64_with_seeds h S s len seed0 seed1 =
     seq (cityhash64 h S s len) (\<lambda>r. Inr (hash_16 h (r - seed0) seed1))"

definition cityhash64_with_seed ::
  "(uint128 \<Rightarrow> u64) \<Rightarrow> byte list \<Rightarrow> int \<Rightarrow> size_t \<Rightarrow> u64 \<Rightarrow> error + u64" where
  "cityhash64_with_seed h S s len seed = cityhash64_with_seeds h S s len k2 seed"

section \<open>The 128-bit family\<close>

text \<open>The registers \<open>(a, b, c, d)\<close> of \<^verbatim>\<open>city_murmur\<close>, and the body of its loop on the
  16 bytes at \<open>s\<close>.\<close>

type_synonym mregs = "u64 \<times> u64 \<times> u64 \<times> u64"

definition murmur_step :: "byte list \<Rightarrow> int \<Rightarrow> mregs \<Rightarrow> error + mregs" where
  "murmur_step S s st =
     (case st of (a0, b0, c0, d0) \<Rightarrow>
     seq (fetch64 S s) (\<lambda>f0.
     let a1 = a0 XOR smix (f0 * k1) * k1;
         a2 = a1 * k1;
         b1 = b0 XOR a2 in
     seq (fetch64 S (s + 8)) (\<lambda>f1.
     let c1 = c0 XOR smix (f1 * k1) * k1;
         c2 = c1 * k1;
         d1 = d0 XOR c2 in
     Inr (a2, b1, c2, d1))))"

lemma murmur_step_in_bounds:
  assumes "murmur_step S s st = Inr st'"
  shows "0 \<le> s \<and> s + 16 \<le> int (length S)"
proof -
  obtain a0 b0 c0 d0 where st: "st = (a0, b0, c0, d0)"
    by (cases st) auto
  from assms show ?thesis
    unfolding st murmur_step_def seq_def fetch64_def uload64_def in_bounds_def
    by (simp split: sum.splits if_splits)
qed

text \<open>The \<^verbatim>\<open>do ... while (l > 0)\<close> loop of \<^verbatim>\<open>city_murmur\<close>; \<open>l\<close> is a \<^verbatim>\<open>signed long\<close>.\<close>

function murmur_loop :: "byte list \<Rightarrow> int \<Rightarrow> 64 word \<Rightarrow> mregs \<Rightarrow> error + mregs" where
  "murmur_loop S s l st =
     (case murmur_step S s st of
        Inl e \<Rightarrow> Inl e
      | Inr st' \<Rightarrow>
          if 0 <s l - 16 then murmur_loop S (s + 16) (l - 16) st' else Inr st')"
  by pat_completeness auto
termination
proof (relation "measure (\<lambda>(S, s, l, st). nat (int (length S) - s))", goal_cases)
  case 1
  show ?case by simp
next
  case (2 S s l st st')
  from murmur_step_in_bounds [OF 2(1)] show ?case by simp
qed

declare murmur_loop.simps [simp del]

definition city_murmur ::
  "(uint128 \<Rightarrow> u64) \<Rightarrow> byte list \<Rightarrow> int \<Rightarrow> size_t \<Rightarrow> uint128 \<Rightarrow> error + uint128" where
  "city_murmur h S s len seed =
     (let a0 = fst seed;
          b0 = snd seed;
          l = len - 16
      in
      seq (if l \<le>s 0 then
             (let a1 = smix (a0 * k1) * k1 in
              seq (hash_0_to_16 h S s len) (\<lambda>r.
              let c1 = b0 * k1 + r in
              seq (if len \<ge> 8 then fetch64 S s else Inr c1) (\<lambda>t.
              let d1 = smix (a1 + t) in
              Inr (a1, b0, c1, d1))))
           else
             seq (fetch64 S (s + uint len - 8)) (\<lambda>f0.
             let c1 = hash_16 h (f0 + k1) a0 in
             seq (fetch64 S (s + uint len - 16)) (\<lambda>f1.
             let d1 = hash_16 h (b0 + len) (c1 + f1);
                 a1 = a0 + d1 in
             murmur_loop S s l (a1, b0, c1, d1)))) (\<lambda>st.
      case st of (a, b, c, d) \<Rightarrow>
        let a' = hash_16 h a c;
            b' = hash_16 h d b
        in Inr (a' XOR b', hash_16 h b' a')))"

text \<open>Lines 306 to 313 of \<^verbatim>\<open>cityhash128_with_seed\<close>: the registers before the loop.\<close>

definition cityhash128_init :: "byte list \<Rightarrow> int \<Rightarrow> size_t \<Rightarrow> uint128 \<Rightarrow> error + regs" where
  "cityhash128_init S s len seed =
     (let x = fst seed;
          y = snd seed;
          z = len * k1 in
      seq (rotate64 (y XOR k1) 49) (\<lambda>r0.
      seq (fetch64 S s) (\<lambda>f0.
      let va = r0 * k1 + f0 in
      seq (rotate64 va 42) (\<lambda>r1.
      seq (fetch64 S (s + 8)) (\<lambda>f1.
      let vb = r1 * k1 + f1 in
      seq (rotate64 (y + z) 35) (\<lambda>r2.
      let wa = r2 * k1 + x in
      seq (fetch64 S (s + 88)) (\<lambda>f2.
      seq (rotate64 (x + f2) 53) (\<lambda>r3.
      let wb = r3 * k1 in
      Inr (x, y, z, (va, vb), (wa, wb))))))))))"

text \<open>The \<^verbatim>\<open>do ... while (likely(len >= 128))\<close> loop: two chunks, then \<^verbatim>\<open>len -= 128\<close>.
  It returns the advanced pointer and the remaining length with the registers.\<close>

function cityhash128_loop ::
  "byte list \<Rightarrow> int \<Rightarrow> size_t \<Rightarrow> regs \<Rightarrow> error + (int \<times> size_t \<times> regs)" where
  "cityhash128_loop S s len st =
     (case seq (chunk64 S s st) (chunk64 S (s + 64)) of
        Inl e \<Rightarrow> Inl e
      | Inr st' \<Rightarrow>
          if len - 128 \<ge> 128 then cityhash128_loop S (s + 128) (len - 128) st'
          else Inr (s + 128, len - 128, st'))"
  by pat_completeness auto
termination
proof (relation "measure (\<lambda>(S, s, len, st). nat (int (length S) - s))", goal_cases)
  case 1
  show ?case by simp
next
  case (2 S s len st st')
  from 2(1) obtain st1 where "chunk64 S s st = Inr st1"
    by (auto simp: seq_def split: sum.splits)
  from chunk64_in_bounds [OF this] show ?case by simp
qed

declare cityhash128_loop.simps [simp del]

text \<open>The body of the tail loop of \<^verbatim>\<open>cityhash128_with_seed\<close>, after
  \<^verbatim>\<open>tail_done += 32\<close>.\<close>

definition tail_step :: "byte list \<Rightarrow> int \<Rightarrow> size_t \<Rightarrow> size_t \<Rightarrow> regs \<Rightarrow> error + regs" where
  "tail_step S s len tail_done st =
     (case st of (x0, y0, z, v, w) \<Rightarrow>
     seq (rotate64 (y0 - x0) 42) (\<lambda>r0.
     let y1 = r0 * k0 + snd v in
     seq (fetch64 S (s + uint len - uint tail_done + 16)) (\<lambda>f0.
     let wa1 = fst w + f0 in
     seq (rotate64 x0 49) (\<lambda>r1.
     let x1 = r1 * k0 + wa1;
         wa2 = wa1 + fst v in
     seq (weak_hash_32_with_seeds_raw S (s + uint len - uint tail_done) (fst v) (snd v)) (\<lambda>v'.
     Inr (x1, y1, z, v', (wa2, snd w)))))))"

lemma uint_add32_cases:
  fixes td :: "64 word"
  shows "uint (td + 32) = uint td + 32 \<or> uint (td + 32) = uint td + 32 - 2 ^ 64"
  by (simp add: uint_plus_if')

lemma tail_step_in_bounds:
  assumes "tail_step S s len td st = Inr st'"
  shows "in_bounds S (s + uint len - uint td) 32"
proof -
  obtain x0 y0 z0 v w where st: "st = (x0, y0, z0, v, w)"
    by (cases st) auto
  from assms obtain r where
    "weak_hash_32_with_seeds_raw S (s + uint len - uint td) (fst v) (snd v) = Inr r"
    unfolding st tail_step_def Let_def prod.case by (elim seq_InrE) blast
  then show ?thesis by (rule weak_raw_in_bounds)
qed

text \<open>The tail loop \<^verbatim>\<open>for (size_t tail_done = 0; tail_done < len;)\<close>. The counter is a
  \<^verbatim>\<open>size_t\<close> and wraps around; the loop ends because a step whose counter has wrapped
  reads outside the memory.\<close>

function cityhash128_tail ::
  "byte list \<Rightarrow> int \<Rightarrow> size_t \<Rightarrow> size_t \<Rightarrow> regs \<Rightarrow> error + regs" where
  "cityhash128_tail S s len tail_done st =
     (if tail_done < len then
        (case tail_step S s len (tail_done + 32) st of
           Inl e \<Rightarrow> Inl e
         | Inr st' \<Rightarrow> cityhash128_tail S s len (tail_done + 32) st')
      else Inr st)"
  by pat_completeness auto
termination
proof (relation "measure (\<lambda>(S, s, len, td, st).
         let p = s + uint len - uint td in if 0 \<le> p \<and> p < 2 ^ 64 then nat p else 2 ^ 64)",
       goal_cases)
  case 1
  show ?case by simp
next
  case (2 S s len td st st')
  from tail_step_in_bounds [OF 2(2)]
  have b: "0 \<le> s + uint len - uint (td + 32)"
          "s + uint len - uint (td + 32) + 32 \<le> int (length S)" "length S < 2 ^ 64"
    by (auto simp: in_bounds_def)
  from b(3) have "int (length S) < 2 ^ 64"
    by (metis of_nat_less_iff of_nat_numeral of_nat_power)
  with b uint_add32_cases [of td] show ?case
    by (auto simp: Let_def)
qed

declare cityhash128_tail.simps [simp del]

definition cityhash128_with_seed ::
  "(uint128 \<Rightarrow> u64) \<Rightarrow> byte list \<Rightarrow> int \<Rightarrow> size_t \<Rightarrow> uint128 \<Rightarrow> error + uint128" where
  "cityhash128_with_seed h S s len seed =
     (if len < 128 then city_murmur h S s len seed
      else
        seq (cityhash128_init S s len seed) (\<lambda>st0.
        seq (cityhash128_loop S s len st0) (\<lambda>(s1, len1, st1).
        case st1 of (x0, y0, z, v0, w0) \<Rightarrow>
        seq (rotate64 (fst w0) 37) (\<lambda>r0.
        let y1 = y0 + (r0 * k0 + z) in
        seq (rotate64 (fst v0 + z) 49) (\<lambda>r1.
        let x1 = x0 + r1 * k0 in
        seq (cityhash128_tail S s1 len1 0 (x1, y1, z, v0, w0)) (\<lambda>st2.
        case st2 of (x2, y2, z2, v, w) \<Rightarrow>
        let x = hash_16 h x2 (fst v);
            y = hash_16 h y2 (fst w)
        in Inr (hash_16 h (x + snd v) (snd w) + y,
                hash_16 h (x + snd w) (y + snd v))))))))"

text \<open>In the branch for 8 to 15 bytes the source passes \<^verbatim>\<open>NULL\<close> and length 0.\<close>

definition cityhash128 ::
  "(uint128 \<Rightarrow> u64) \<Rightarrow> byte list \<Rightarrow> int \<Rightarrow> size_t \<Rightarrow> error + uint128" where
  "cityhash128 h S s len =
     (if len \<ge> 16 then
        seq (fetch64 S s) (\<lambda>f0.
        seq (fetch64 S (s + 8)) (\<lambda>f1.
        cityhash128_with_seed h S (s + 16) (len - 16) (f0 XOR k3, f1)))
      else if len \<ge> 8 then
        seq (fetch64 S s) (\<lambda>f0.
        seq (fetch64 S (s + uint len - 8)) (\<lambda>f1.
        cityhash128_with_seed h [] 0 0 (f0 XOR (len * k0), f1 XOR k1)))
      else cityhash128_with_seed h S s len (k0, k1))"

section \<open>The 256-bit family and the composite 128-bit hasher\<close>

text \<open>This part of the source is compiled only with SSE4.2. \<^verbatim>\<open>_mm_crc32_u64\<close> is an
  intrinsic of the compiler: it is the parameter \<open>crc\<close>. The tail loop of
  \<^verbatim>\<open>cityhash256_crc_long\<close> calls \<^verbatim>\<open>Rotate\<close> and \<^verbatim>\<open>Fetch64\<close>, which the file does not
  define: they are the parameters \<open>Rotate\<close> and \<open>Fetch64\<close>, functions that may fail, of
  every function that reaches the tail loop.\<close>

text \<open>The registers \<open>(a, b, c, d, e, f, g, h, i, j, t)\<close> of the main loop.\<close>

type_synonym cregs = "u64 \<times> u64 \<times> u64 \<times> u64 \<times> u64 \<times> u64 \<times> u64 \<times> u64 \<times> u64 \<times> u64 \<times> u64"

text \<open>The macro \<^verbatim>\<open>CHUNK(multiplier, z)\<close> on the 40 bytes at \<open>s\<close>.\<close>

definition CHUNK ::
  "(u64 \<Rightarrow> u64 \<Rightarrow> u64) \<Rightarrow> byte list \<Rightarrow> int \<Rightarrow> u64 \<Rightarrow> size_t \<Rightarrow> cregs \<Rightarrow> error + cregs" where
  "CHUNK crc S s multiplier z st =
     (case st of (a0, b0, c0, d0, e0, f0, g0, h0, i0, j0, t0) \<Rightarrow>
     let old_a = a0 in
     seq (rotate64 b0 (41 XOR z)) (\<lambda>r0.
     seq (fetch64 S s) (\<lambda>w0.
     let a = r0 * multiplier + w0 in
     seq (rotate64 c0 (27 XOR z)) (\<lambda>r1.
     seq (fetch64 S (s + 8)) (\<lambda>w1.
     let b = r1 * multiplier + w1 in
     seq (rotate64 d0 (41 XOR z)) (\<lambda>r2.
     seq (fetch64 S (s + 16)) (\<lambda>w2.
     let c = r2 * multiplier + w2 in
     seq (rotate64 e0 (33 XOR z)) (\<lambda>r3.
     seq (fetch64 S (s + 24)) (\<lambda>w3.
     let d = r3 * multiplier + w3 in
     seq (rotate64 t0 (25 XOR z)) (\<lambda>r4.
     seq (fetch64 S (s + 32)) (\<lambda>w4.
     let e = r4 * multiplier + w4;
         t = old_a
     in Inr (a, b, c, d, e, crc f0 a, crc g0 b, crc h0 c, crc i0 d, crc j0 e, t))))))))))))"

text \<open>The body of the main loop: six chunks, 240 bytes.\<close>

definition crc_block ::
  "(u64 \<Rightarrow> u64 \<Rightarrow> u64) \<Rightarrow> byte list \<Rightarrow> int \<Rightarrow> cregs \<Rightarrow> error + cregs" where
  "crc_block crc S s st =
     seq (CHUNK crc S s 1 1 st) (\<lambda>st1.
     seq (CHUNK crc S (s + 40) k0 0 st1) (\<lambda>st2.
     seq (CHUNK crc S (s + 80) 1 1 st2) (\<lambda>st3.
     seq (CHUNK crc S (s + 120) k0 0 st3) (\<lambda>st4.
     seq (CHUNK crc S (s + 160) 1 1 st4) (\<lambda>st5.
     CHUNK crc S (s + 200) k0 0 st5)))))"

lemma crc_block_in_bounds:
  assumes "crc_block crc S s st = Inr st'"
  shows "in_bounds S s 8"
proof -
  from assms obtain st1 where c: "CHUNK crc S s 1 1 st = Inr st1"
    unfolding crc_block_def by (elim seq_InrE) blast
  obtain a0 b0 c0 d0 e0 f0 g0 h0 i0 j0 t0
    where st: "st = (a0, b0, c0, d0, e0, f0, g0, h0, i0, j0, t0)"
    by (cases st) auto
  from c obtain w0 where "fetch64 S s = Inr w0"
    unfolding st CHUNK_def Let_def prod.case by (elim seq_InrE) blast
  then show ?thesis by (rule fetch64_InrD)
qed

text \<open>The loop \<^verbatim>\<open>do ... while (--iters > 0)\<close>; it returns the advanced pointer with
  the registers.\<close>

function crc_loop ::
  "(u64 \<Rightarrow> u64 \<Rightarrow> u64) \<Rightarrow> byte list \<Rightarrow> int \<Rightarrow> size_t \<Rightarrow> cregs \<Rightarrow> error + (int \<times> cregs)" where
  "crc_loop crc S s iters st =
     (case crc_block crc S s st of
        Inl e \<Rightarrow> Inl e
      | Inr st' \<Rightarrow>
          if iters - 1 > 0 then crc_loop crc S (s + 240) (iters - 1) st'
          else Inr (s + 240, st'))"
  by pat_completeness auto
termination
proof (relation "measure (\<lambda>(crc, S, s, iters, st). nat (int (length S) - s))", goal_cases)
  case 1
  show ?case by simp
next
  case (2 crc S s iters st st')
  from crc_block_in_bounds [OF 2(1)] show ?case by (simp add: in_bounds_def)
qed

declare crc_loop.simps [simp del]

text \<open>The registers \<open>(a, c, d, v)\<close> that the tail loop of \<^verbatim>\<open>cityhash256_crc_long\<close>
  changes, and its body after \<^verbatim>\<open>tail_done += 32\<close>.\<close>

type_synonym tregs = "u64 \<times> u64 \<times> u64 \<times> uint128"

definition crc_tail_step ::
  "(u64 \<Rightarrow> size_t \<Rightarrow> error + u64) \<Rightarrow> (byte list \<Rightarrow> int \<Rightarrow> error + u64)
     \<Rightarrow> byte list \<Rightarrow> int \<Rightarrow> size_t \<Rightarrow> size_t \<Rightarrow> tregs \<Rightarrow> error + tregs" where
  "crc_tail_step Rotate Fetch64 S s len tail_done st =
     (case st of (a0, c0, d0, v) \<Rightarrow>
     seq (Rotate (c0 - a0) 42) (\<lambda>r0.
     let c1 = r0 * k0 + snd v in
     seq (Fetch64 S (s + uint len - uint tail_done + 16)) (\<lambda>f0.
     let d1 = d0 + f0 in
     seq (Rotate a0 49) (\<lambda>r1.
     let a1 = r1 * k0 + d1;
         d2 = d1 + fst v in
     seq (weak_hash_32_with_seeds_raw S (s + uint len - uint tail_done) (fst v) (snd v)) (\<lambda>v'.
     Inr (a1, c1, d2, v'))))))"

lemma crc_tail_step_in_bounds:
  assumes "crc_tail_step Rotate Fetch64 S s len td st = Inr st'"
  shows "in_bounds S (s + uint len - uint td) 32"
proof -
  obtain a0 c0 d0 v where st: "st = (a0, c0, d0, v)"
    by (cases st) auto
  from assms obtain r where
    "weak_hash_32_with_seeds_raw S (s + uint len - uint td) (fst v) (snd v) = Inr r"
    unfolding st crc_tail_step_def Let_def prod.case by (elim seq_InrE) blast
  then show ?thesis by (rule weak_raw_in_bounds)
qed

function crc_tail ::
  "(u64 \<Rightarrow> size_t \<Rightarrow> error + u64) \<Rightarrow> (byte list \<Rightarrow> int \<Rightarrow> error + u64)
     \<Rightarrow> byte list \<Rightarrow> int \<Rightarrow> size_t \<Rightarrow> size_t \<Rightarrow> tregs \<Rightarrow> error + tregs" where
  "crc_tail Rotate Fetch64 S s len tail_done st =
     (if tail_done < len then
        (case crc_tail_step Rotate Fetch64 S s len (tail_done + 32) st of
           Inl e \<Rightarrow> Inl e
         | Inr st' \<Rightarrow> crc_tail Rotate Fetch64 S s len (tail_done + 32) st')
      else Inr st)"
  by pat_completeness auto
termination
proof (relation "measure (\<lambda>(Rotate, Fetch64, S, s, len, td, st).
         let p = s + uint len - uint td in if 0 \<le> p \<and> p < 2 ^ 64 then nat p else 2 ^ 64)",
       goal_cases)
  case 1
  show ?case by simp
next
  case (2 Rotate Fetch64 S s len td st st')
  from crc_tail_step_in_bounds [OF 2(2)]
  have b: "0 \<le> s + uint len - uint (td + 32)"
          "s + uint len - uint (td + 32) + 32 \<le> int (length S)" "length S < 2 ^ 64"
    by (auto simp: in_bounds_def)
  from b(3) have "int (length S) < 2 ^ 64"
    by (metis of_nat_less_iff of_nat_numeral of_nat_power)
  with b uint_add32_cases [of td] show ?case
    by (auto simp: Let_def)
qed

declare crc_tail.simps [simp del]

definition cityhash256_crc_long ::
  "(uint128 \<Rightarrow> u64) \<Rightarrow> (u64 \<Rightarrow> u64 \<Rightarrow> u64) \<Rightarrow> (u64 \<Rightarrow> size_t \<Rightarrow> error + u64)
     \<Rightarrow> (byte list \<Rightarrow> int \<Rightarrow> error + u64) \<Rightarrow> byte list \<Rightarrow> int \<Rightarrow> size_t \<Rightarrow> u32
     \<Rightarrow> error + uint256" where
  "cityhash256_crc_long h crc Rotate Fetch64 S s len seed =
     seq (fetch64 S (s + 56)) (\<lambda>w0.
     let a0 = w0 + k0 in
     seq (fetch64 S (s + 96)) (\<lambda>w1.
     let b0 = w1 + k0;
         c0 = hash_16 h b0 len;
         result_b0 = c0 in
     seq (fetch64 S (s + 120)) (\<lambda>w2.
     let d0 = w2 * k0 + len;
         result_c0 = d0 in
     seq (fetch64 S (s + 184)) (\<lambda>w3.
     let e0 = w3 + ucast seed;
         f0 = (ucast seed :: u64);
         t0 = c0 + d0;
         iters = len div 240;
         len1 = len - iters * 240 in
     seq (crc_loop crc S s iters (a0, b0, c0, d0, e0, f0, 0, 0, 0, 0, t0)) (\<lambda>(s1, st1).
     case st1 of (a1, b1, c1, d1, e1, f1, g1, h1, i1, j1, t1) \<Rightarrow>
     let j2 = j1 + push_bit 32 i1;
         a2 = hash_16 h a1 j2;
         h2 = h1 + push_bit 32 g1;
         b2 = b1 * k0 + h2;
         c2 = hash_16 h c1 f1 + i1;
         d2 = hash_16 h d1 e1;
         v0 = (j2 + e1, hash_16 h h2 t1);
         h3 = snd v0 + f1 in
     seq (crc_tail Rotate Fetch64 S s1 len1 0 (a2, c2, d2, v0)) (\<lambda>st2.
     case st2 of (a3, c3, d3, v) \<Rightarrow>
     let e3 = hash_16 h a3 d3 + fst v;
         f3 = hash_16 h b2 c3 + a3;
         g3 = hash_16 h (fst v) (snd v) + c3;
         result_a = e3 + f3 + g3 + h3;
         a4 = smix ((a3 + g3) * k0) * k0 + b2;
         result_b = result_b0 + (a4 + result_a);
         a5 = smix (a4 * k0) * k0 + c3;
         result_c = result_c0 + (a5 + result_b);
         a6 = smix ((a5 + e3) * k0) * k0;
         result_d = a6 + result_c
     in Inr (result_a, result_b, result_c, result_d)))))))"

text \<open>\<^verbatim>\<open>cityhash256_crc_short\<close> copies \<open>len\<close> bytes into a buffer of 240 bytes with
  \<^verbatim>\<open>memcpy(buf, s, len)\<close> and fills the rest with zeros. The source of the copy must not be
  the null pointer, whatever \<open>len\<close> is, and copying more than 240 bytes would write outside
  the buffer.\<close>

definition cityhash256_crc_short ::
  "(uint128 \<Rightarrow> u64) \<Rightarrow> (u64 \<Rightarrow> u64 \<Rightarrow> u64) \<Rightarrow> (u64 \<Rightarrow> size_t \<Rightarrow> error + u64)
     \<Rightarrow> (byte list \<Rightarrow> int \<Rightarrow> error + u64) \<Rightarrow> byte list \<Rightarrow> int \<Rightarrow> size_t
     \<Rightarrow> error + uint256" where
  "cityhash256_crc_short h crc Rotate Fetch64 S s len =
     (if S = [] then Inl NullPointer
      else if in_bounds S s (unat len) \<and> len \<le> 240 then
        (let buf = take (unat len) (drop (nat s) S) @ replicate (240 - unat len) 0
         in cityhash256_crc_long h crc Rotate Fetch64 buf 0 240 (NOT (ucast len)))
      else Inl OutOfBounds)"

definition cityhash256_crc ::
  "(uint128 \<Rightarrow> u64) \<Rightarrow> (u64 \<Rightarrow> u64 \<Rightarrow> u64) \<Rightarrow> (u64 \<Rightarrow> size_t \<Rightarrow> error + u64)
     \<Rightarrow> (byte list \<Rightarrow> int \<Rightarrow> error + u64) \<Rightarrow> byte list \<Rightarrow> int \<Rightarrow> size_t
     \<Rightarrow> error + uint256" where
  "cityhash256_crc h crc Rotate Fetch64 S s len =
     (if len \<ge> 240 then cityhash256_crc_long h crc Rotate Fetch64 S s len 0
      else cityhash256_crc_short h crc Rotate Fetch64 S s len)"


definition cityhash128_crc ::
  "(uint128 \<Rightarrow> u64) \<Rightarrow> (u64 \<Rightarrow> u64 \<Rightarrow> u64) \<Rightarrow> (u64 \<Rightarrow> size_t \<Rightarrow> error + u64)
     \<Rightarrow> (byte list \<Rightarrow> int \<Rightarrow> error + u64) \<Rightarrow> byte list \<Rightarrow> int \<Rightarrow> size_t
     \<Rightarrow> error + uint128" where
  "cityhash128_crc h crc Rotate Fetch64 S s len =
     (if len \<le> 900 then cityhash128 h S s len
      else
        seq (cityhash256_crc h crc Rotate Fetch64 S s len) (\<lambda>hash.
        case hash of (hash_a, hash_b, hash_c, hash_d) \<Rightarrow>
        Inr (hash_c, hash_d)))"

section \<open>Notions used in the statements\<close>

text \<open>A result is \<open>rot_safe\<close> when it is not one of the two errors that \<^verbatim>\<open>rotate64\<close>
  raises: the failed assertion \<^verbatim>\<open>shift < 64\<close> and the shift by the full width.\<close>

definition rot_safe :: "error + 'a \<Rightarrow> bool" where
  "rot_safe r \<longleftrightarrow> r \<noteq> Inl AssertFail \<and> r \<noteq> Inl UndefinedShift"

text \<open>The loop body of \<^verbatim>\<open>cityhash64\<close> applied to \<open>n\<close> consecutive 64-byte chunks, the
  first one at \<open>s\<close>.\<close>

fun chunks64 :: "byte list \<Rightarrow> int \<Rightarrow> nat \<Rightarrow> regs \<Rightarrow> error + regs" where
  "chunks64 S s 0 st = Inr st"
| "chunks64 S s (Suc n) st = seq (chunk64 S s st) (chunks64 S (s + 64) n)"

text \<open>Two views of \<open>n\<close> bytes, at \<open>s1\<close> in \<open>S1\<close> and at \<open>s2\<close> in \<open>S2\<close>, that lie inside
  their memories and hold the same bytes.\<close>

definition same_view :: "byte list \<Rightarrow> int \<Rightarrow> byte list \<Rightarrow> int \<Rightarrow> nat \<Rightarrow> bool" where
  "same_view S1 s1 S2 s2 n \<longleftrightarrow>
     in_bounds S1 s1 n \<and> in_bounds S2 s2 n \<and>
     take n (drop (nat s1) S1) = take n (drop (nat s2) S2)"

text \<open>A 64-bit word given by an integer. Arithmetic on words written \<open>W i\<close> with
  \<open>0 \<le> i < 2 ^ 64\<close> is arithmetic on integers modulo \<open>2 ^ 64\<close>, which keeps the numerals
  of a calculation small.\<close>

definition W :: "int \<Rightarrow> u64" where
  "W i = word_of_int i"

text \<open>Two results agree when they are the same value and not an error.\<close>

definition agree :: "error + 'a \<Rightarrow> error + 'a \<Rightarrow> bool" where
  "agree r1 r2 \<longleftrightarrow> r1 = r2 \<and> (\<exists>x. r1 = Inr x)"


section \<open>Sequencing and rotation\<close>

lemma seq_Inr: "seq (Inr x) f = f x"
  by (simp add: seq_def)

lemma seq_Inl: "seq (Inl e) f = Inl e"
  by (simp add: seq_def)

lemma seq_weak_cong: "m = m' \<Longrightarrow> seq m f = seq m' f"
  by simp

lemma sub64_less:
  fixes n :: "64 word"
  assumes "0 < n" "n < 64"
  shows "64 - n < 64" "unat (64 - n) = 64 - unat n"
  using assms by unat_arith+

lemma rotate64_Inr:
  assumes "0 < n" "n < 64"
  shows "rotate64 v n = Inr (drop_bit (unat n) v OR push_bit (64 - unat n) v)"
  using assms sub64_less [OF assms]
  by (simp add: rotate64_def shr64_def shl64_def seq_def)

lemma rotr_as_shifts:
  fixes v :: "64 word"
  assumes "m < 64"
  shows "drop_bit m v OR push_bit (64 - m) v = word_rotr m v"
proof (rule bit_word_eqI)
  fix i
  assume "i < LENGTH(64)"
  then have i: "i < 64" by simp
  show "bit (drop_bit m v OR push_bit (64 - m) v) i \<longleftrightarrow> bit (word_rotr m v) i"
  proof (cases "i + m < 64")
    case True
    then have "\<not> 64 - m \<le> i" by simp
    with True i assms show ?thesis
      by (simp add: bit_simps bit_word_rotr_iff add.commute)
  next
    case False
    then have "\<not> bit v (m + i)"
      using bit_imp_le_length [of v "m + i"] by auto
    moreover from False i assms have "(i + m) mod 64 = i - (64 - m)" "64 - m \<le> i"
      by (simp_all add: mod_if)
    ultimately show ?thesis using i
      by (simp add: bit_simps bit_word_rotr_iff)
  qed
qed

lemma rotate64_rotr:
  assumes "0 < n" "n < 64"
  shows "rotate64 v n = Inr (word_rotr (unat n) v)"
proof -
  have "unat n < 64" using assms by unat_arith
  from rotr_as_shifts [OF this] show ?thesis by (simp add: rotate64_Inr [OF assms])
qed

section \<open>Word arithmetic\<close>

lemma unat_sub_const:
  fixes x c :: "64 word"
  assumes "unat c \<le> unat x"
  shows "unat (x - c) = unat x - unat c"
  using assms by (simp add: unat_sub word_le_nat_alt)

lemma and_not_63:
  fixes x :: "64 word"
  shows "unat (x AND NOT 63) = 64 * (unat x div 64)"
proof -
  have m: "(63 :: 64 word) = mask 6"
    by (simp add: mask_eq_exp_minus_1)
  have e: "x AND NOT (mask 6) = push_bit 6 (drop_bit 6 x)"
    by (rule bit_word_eqI) (auto simp: bit_simps)
  have d: "unat (drop_bit 6 x) = unat x div 64"
    by (simp add: drop_bit_eq_div unat_div)
  have "unat x < 2 ^ 64" using unsigned_less [of x] by simp
  then have "unat (drop_bit 6 x) * unat (64 :: 64 word) < 2 ^ LENGTH(64)"
    unfolding d by simp
  then have "unat (drop_bit 6 x * 64) = unat (drop_bit 6 x) * unat (64 :: 64 word)"
    by (simp only: unat_mult_lem)
  then show ?thesis
    unfolding m e push_bit_eq_mult by (simp add: d)
qed

lemma eff_len:
  fixes len :: "64 word"
  assumes "64 < len"
  shows "unat ((len - 1) AND NOT 63) = 64 * ((unat len - 1) div 64)"
    and "0 < (unat len - 1) div 64"
proof -
  have l: "64 < unat len" using assms by (simp add: word_less_nat_alt)
  then have "unat (len - 1) = unat len - 1"
    using unat_sub_const [of 1 len] by simp
  with and_not_63 [of "len - 1"]
  show "unat ((len - 1) AND NOT 63) = 64 * ((unat len - 1) div 64)"
    by simp
  from l show "0 < (unat len - 1) div 64"
    by (simp add: div_greater_zero_iff)
qed

lemma pow63: "(2::int) ^ 63 = 9223372036854775808"
  by simp

lemma sint_sub16:
  fixes l :: "64 word"
  assumes "- (2 ^ 63) + 16 \<le> sint l"
  shows "sint (l - 16) = sint l - 16"
proof -
  have "sint l < 2 ^ 63" using sint_lt [of l] by simp
  with assms have "signed_take_bit 63 (sint l - 16) = sint l - 16"
    by (intro signed_take_bit_int_eq_self) simp_all
  then show ?thesis by (simp add: sint_word_diff)
qed

lemma sint_small:
  fixes l :: "64 word"
  assumes "l < 128"
  shows "sint l = uint l"
proof -
  have "uint l < 128" using assms by (simp add: word_less_def)
  moreover have "0 \<le> uint l" by simp
  ultimately have "signed_take_bit 63 (uint l) = uint l"
    unfolding pow63 by (intro signed_take_bit_int_eq_self; unfold pow63) linarith+
  then show ?thesis by (simp add: sint_uint)
qed

lemma murmur_branch:
  fixes len :: "64 word"
  assumes "len < 128"
  shows "len - 16 \<le>s 0 \<longleftrightarrow> len \<le> 16"
proof -
  have "0 \<le> uint len" by simp
  then have "- (2 ^ 63) + 16 \<le> sint len"
    unfolding sint_small [OF assms] pow63 by linarith
  from sint_sub16 [OF this] have "sint (len - 16) = uint len - 16"
    by (simp add: sint_small [OF assms])
  then show ?thesis by (simp add: word_sle_eq word_le_def)
qed

section \<open>Calculating with 64-bit words\<close>

lemma p64: "(2::int) ^ 64 = 18446744073709551616"
  by simp

lemma W_numeral: "(numeral n :: u64) = W (numeral n)"
  and W_0: "(0 :: u64) = W 0"
  and W_1: "(1 :: u64) = W 1"
  by (simp_all add: W_def)

lemma W_add: "W a + W b = W ((a + b) mod 18446744073709551616)"
  unfolding W_def p64 [symmetric] by transfer (simp add: take_bit_eq_mod mod_simps)

lemma W_diff: "W a - W b = W ((a - b) mod 18446744073709551616)"
  unfolding W_def p64 [symmetric] by transfer (simp add: take_bit_eq_mod mod_simps)

lemma W_mult: "W a * W b = W ((a * b) mod 18446744073709551616)"
  unfolding W_def p64 [symmetric] by transfer (simp add: take_bit_eq_mod mod_simps)

lemma W_xor: "W a XOR W b = W (a XOR b)"
  unfolding W_def by transfer simp

lemma W_or: "W a OR W b = W (a OR b)"
  unfolding W_def by transfer simp

lemma W_and: "W a AND W b = W (a AND b)"
  unfolding W_def by transfer simp

lemma W_not: "NOT (W a) = W ((- a - 1) mod 18446744073709551616)"
  unfolding W_def not_eq_complement p64 [symmetric]
  by transfer (simp add: take_bit_eq_mod mod_simps)

lemma W_drop_bit: "drop_bit n (W a) = W (drop_bit n (a mod 18446744073709551616))"
  unfolding W_def p64 [symmetric] by transfer (simp add: take_bit_eq_mod drop_bit_take_bit)

lemma W_push_bit: "push_bit n (W a) = W (push_bit n a mod 18446744073709551616)"
  unfolding W_def p64 [symmetric] by transfer (simp add: take_bit_eq_mod)

lemma W_uint: "uint (W a) = a mod 18446744073709551616"
  and W_unat: "unat (W a) = nat (a mod 18446744073709551616)"
  unfolding W_def p64 [symmetric] by (simp_all add: uint_word_of_int unat_eq_nat_uint)

lemma W_less: "W a < W b \<longleftrightarrow> a mod 18446744073709551616 < b mod 18446744073709551616"
  and W_le: "W a \<le> W b \<longleftrightarrow> a mod 18446744073709551616 \<le> b mod 18446744073709551616"
  and W_eq: "W a = W b \<longleftrightarrow> a mod 18446744073709551616 = b mod 18446744073709551616"
  by (simp_all add: word_less_def word_le_def word_uint_eq_iff W_uint)

lemmas W_simps = W_numeral W_0 W_1 W_add W_diff W_mult W_xor W_or W_and W_not
  W_drop_bit W_push_bit W_uint W_unat W_less W_le W_eq

lemma le_word_zeros: "le_word (replicate n 0) = 0"
  by (induction n) simp_all

lemma fetch64_zeros:
  "fetch64 (replicate n 0) p =
     (if in_bounds (replicate n 0) p 8 then Inr 0 else Inl OutOfBounds)"
  by (simp add: fetch64_def uload64_def le_word_zeros)

lemmas eval_simps = in_bounds_def seq_Inr seq_Inl
  weak_hash_32_with_seeds_raw_def weak_hash_32_with_seeds_def
  rotate64_def shr64_def shl64_def k0_def k1_def k2_def k3_def smix_def

text \<open>The same arithmetic with the reduction modulo \<open>2 ^ 64\<close> written as a mask, which
  the simplifier evaluates faster on numerals.\<close>

lemma W_div: "W a div W b = W ((a mod 18446744073709551616) div (b mod 18446744073709551616))"
  unfolding W_def p64 [symmetric] by transfer (simp add: take_bit_eq_mod)

lemma and_mask64: "(a :: int) AND 18446744073709551615 = a mod 18446744073709551616"
proof -
  have "a AND mask 64 = a mod 2 ^ 64"
    by (simp flip: take_bit_eq_mask add: take_bit_eq_mod)
  then show ?thesis
    by (simp add: mask_eq_exp_minus_1)
qed

lemma M_diff: "W a - W b = W ((a + 18446744073709551616 - b) AND 18446744073709551615)"
proof -
  have "a + 18446744073709551616 - b = a - b + 18446744073709551616"
    by simp
  then have "(a + 18446744073709551616 - b) mod 18446744073709551616
               = (a - b) mod 18446744073709551616"
    by (simp only: mod_add_self2)
  then show ?thesis
    by (simp only: and_mask64 W_diff)
qed

lemma M_add: "W a + W b = W ((a + b) AND 18446744073709551615)"
  and M_mult: "W a * W b = W ((a * b) AND 18446744073709551615)"
  and M_push_bit: "push_bit n (W a) = W (push_bit n a AND 18446744073709551615)"
  and M_drop_bit: "drop_bit n (W a) = W (drop_bit n (a AND 18446744073709551615))"
  and M_eq: "W a = W b \<longleftrightarrow>
      a AND 18446744073709551615 = b AND 18446744073709551615"
  and M_less: "W a < W b \<longleftrightarrow>
      a AND 18446744073709551615 < b AND 18446744073709551615"
  and M_le: "W a \<le> W b \<longleftrightarrow>
      a AND 18446744073709551615 \<le> b AND 18446744073709551615"
  and M_div: "W a div W b = W ((a AND 18446744073709551615) div (b AND 18446744073709551615))"
  by (simp_all add: and_mask64 W_add W_mult W_push_bit W_drop_bit W_eq W_less W_le W_div
      mod_simps)

lemma M_uint: "uint (W a) = a AND 18446744073709551615"
  and M_unat: "unat (W a) = nat (a AND 18446744073709551615)"
  by (simp_all add: and_mask64 W_uint W_unat)

lemmas M_simps = W_numeral W_0 W_1 M_add M_diff M_mult W_xor W_or W_and M_drop_bit M_push_bit
  M_uint M_unat M_less M_le M_eq M_div



section \<open>No execution reaches a bad shift\<close>

lemma rot_safe_Inr: "rot_safe (Inr x)"
  by (simp add: rot_safe_def)

lemma rot_safe_fetch64: "rot_safe (fetch64 S p)"
  by (simp add: rot_safe_def fetch64_def uload64_def)

lemma rot_safe_fetch32: "rot_safe (fetch32 S p)"
  by (simp add: rot_safe_def fetch32_def uload32_def)

lemma rot_safe_load8: "rot_safe (load8 S p)"
  by (simp add: rot_safe_def load8_def)

lemma rot_safe_rotate64: "0 < n \<Longrightarrow> n < 64 \<Longrightarrow> rot_safe (rotate64 v n)"
  by (simp add: rotate64_Inr rot_safe_def)

lemma rot_safe_seq: "rot_safe m \<Longrightarrow> (\<And>x. rot_safe (f x)) \<Longrightarrow> rot_safe (seq m f)"
  by (cases m) (auto simp: seq_def rot_safe_def)

lemma rot_safe_Let: "(\<And>x. rot_safe (f x)) \<Longrightarrow> rot_safe (Let e f)"
  by simp

lemma rot_safe_case_prod: "(\<And>a b. rot_safe (f a b)) \<Longrightarrow> rot_safe (case_prod f p)"
  by (cases p) simp

lemma rot_safe_if:
  "(c \<Longrightarrow> rot_safe a) \<Longrightarrow> (\<not> c \<Longrightarrow> rot_safe b) \<Longrightarrow> rot_safe (if c then a else b)"
  by simp

lemma rot_safe_case_sum:
  "rot_safe m \<Longrightarrow> (\<And>x. m = Inr x \<Longrightarrow> rot_safe (f x))
    \<Longrightarrow> rot_safe (case m of Inl e \<Rightarrow> Inl e | Inr x \<Rightarrow> f x)"
  by (cases m) (auto simp: rot_safe_def)

lemmas rot_safe_intros =
  rot_safe_Inr rot_safe_fetch64 rot_safe_fetch32 rot_safe_load8 rot_safe_rotate64
  rot_safe_seq rot_safe_Let rot_safe_case_prod rot_safe_if

lemma rot_safe_hash_0_to_16:
  "len \<le> 16 \<Longrightarrow> rot_safe (hash_0_to_16 h S s len)"
  unfolding hash_0_to_16_def
  by (intro rot_safe_intros) (unat_arith+)

lemma rot_safe_hash_17_to_32: "rot_safe (hash_17_to_32 h S s len)"
  unfolding hash_17_to_32_def
  by (intro rot_safe_intros) simp_all

lemma rot_safe_weak: "rot_safe (weak_hash_32_with_seeds w x y z a b)"
  unfolding weak_hash_32_with_seeds_def
  by (intro rot_safe_intros) simp_all

lemma rot_safe_weak_raw: "rot_safe (weak_hash_32_with_seeds_raw S s a b)"
  unfolding weak_hash_32_with_seeds_raw_def
  by (intro rot_safe_intros rot_safe_weak)

lemma rot_safe_hash_33_to_64: "rot_safe (hash_33_to_64 S s len)"
  unfolding hash_33_to_64_def
  by (intro rot_safe_intros) simp_all

lemma rot_safe_cityhash64_init: "rot_safe (cityhash64_init S s len)"
  unfolding cityhash64_init_def
  by (intro rot_safe_intros rot_safe_weak_raw) simp_all

lemma rot_safe_chunk64: "rot_safe (chunk64 S s st)"
  unfolding chunk64_def
  by (intro rot_safe_intros rot_safe_weak_raw) simp_all

lemma rot_safe_cityhash64_loop: "rot_safe (cityhash64_loop S s len st)"
proof (induction S s len st rule: cityhash64_loop.induct)
  case (1 S s len st)
  show ?case
    by (subst cityhash64_loop.simps)
       (intro rot_safe_case_sum rot_safe_chunk64 rot_safe_if rot_safe_Inr, rule 1)
qed

lemma rot_safe_cityhash64: "rot_safe (cityhash64 h S s len)"
  unfolding cityhash64_def
  by (intro rot_safe_intros rot_safe_hash_0_to_16 rot_safe_hash_17_to_32
        rot_safe_hash_33_to_64 rot_safe_cityhash64_init rot_safe_cityhash64_loop)

lemma rot_safe_cityhash64_with_seeds:
  "rot_safe (cityhash64_with_seeds h S s len seed0 seed1)"
  unfolding cityhash64_with_seeds_def
  by (intro rot_safe_intros rot_safe_cityhash64)

lemma rot_safe_murmur_step: "rot_safe (murmur_step S s st)"
  unfolding murmur_step_def
  by (intro rot_safe_intros)

lemma rot_safe_murmur_loop: "rot_safe (murmur_loop S s l st)"
proof (induction S s l st rule: murmur_loop.induct)
  case (1 S s l st)
  show ?case
    by (subst murmur_loop.simps)
       (intro rot_safe_case_sum rot_safe_murmur_step rot_safe_if rot_safe_Inr, rule 1)
qed

lemma rot_safe_city_murmur:
  "len < 128 \<Longrightarrow> rot_safe (city_murmur h S s len seed)"
  unfolding city_murmur_def Let_def
  by (intro rot_safe_intros rot_safe_hash_0_to_16 rot_safe_murmur_loop)
     (simp_all add: murmur_branch)

lemma rot_safe_cityhash128_init: "rot_safe (cityhash128_init S s len seed)"
  unfolding cityhash128_init_def
  by (intro rot_safe_intros) simp_all

lemma rot_safe_cityhash128_loop: "rot_safe (cityhash128_loop S s len st)"
proof (induction S s len st rule: cityhash128_loop.induct)
  case (1 S s len st)
  show ?case
    by (subst cityhash128_loop.simps)
       (intro rot_safe_case_sum rot_safe_seq rot_safe_chunk64 rot_safe_if rot_safe_Inr,
        rule 1)
qed

lemma rot_safe_tail_step: "rot_safe (tail_step S s len td st)"
  unfolding tail_step_def
  by (intro rot_safe_intros rot_safe_weak_raw) simp_all

lemma rot_safe_cityhash128_tail: "rot_safe (cityhash128_tail S s len td st)"
proof (induction S s len td st rule: cityhash128_tail.induct)
  case (1 S s len td st)
  show ?case
    by (subst cityhash128_tail.simps)
       (intro rot_safe_case_sum rot_safe_tail_step rot_safe_if rot_safe_Inr, rule 1)
qed

lemma rot_safe_cityhash128_with_seed: "rot_safe (cityhash128_with_seed h S s len seed)"
  unfolding cityhash128_with_seed_def
  by (intro rot_safe_intros rot_safe_city_murmur rot_safe_cityhash128_init
        rot_safe_cityhash128_loop rot_safe_cityhash128_tail) simp_all

lemma rot_safe_cityhash128: "rot_safe (cityhash128 h S s len)"
  unfolding cityhash128_def
  by (intro rot_safe_intros rot_safe_cityhash128_with_seed)

section \<open>The loops as iterations\<close>

lemma cityhash64_loop_chunks:
  assumes "unat len = 64 * n" "0 < n"
  shows "cityhash64_loop S s len st = chunks64 S s n st"
  using assms
proof (induction n arbitrary: s len st)
  case 0
  then show ?case by simp
next
  case (Suc n)
  have u: "unat (len - 64) = 64 * n"
    using Suc.prems(1) unat_sub_const [of 64 len] by simp
  show ?case
  proof (cases "chunk64 S s st")
    case (Inl e)
    then show ?thesis
      by (subst cityhash64_loop.simps) (simp add: seq_def)
  next
    case (Inr st')
    show ?thesis
    proof (cases n)
      case 0
      with u have "len - 64 = 0" by (simp add: unat_eq_0)
      with Inr 0 show ?thesis
        by (subst cityhash64_loop.simps) (simp add: seq_def)
    next
      case (Suc m)
      with u have "len - 64 \<noteq> 0" by (auto simp flip: unat_eq_0)
      moreover have "cityhash64_loop S (s + 64) (len - 64) st' = chunks64 S (s + 64) n st'"
        using Suc by (intro Suc.IH u) simp
      ultimately show ?thesis using Inr
        by (subst cityhash64_loop.simps) (simp add: seq_def)
    qed
  qed
qed

lemma cityhash64_long_unfold:
  assumes l: "64 < len"
  shows "cityhash64 h S s len =
         seq (cityhash64_init S s len) (\<lambda>st0.
         seq (chunks64 S s ((unat len - 1) div 64) st0) (\<lambda>st.
         case st of (x, y, z, v, w) \<Rightarrow>
           Inr (hash_16 h (hash_16 h (fst v) (fst w) + smix y * k1 + z)
                          (hash_16 h (snd v) (snd w) + x))))"
proof -
  have loop: "cityhash64_loop S s ((len - 1) AND NOT 63) st'
                = chunks64 S s ((unat len - 1) div 64) st'" for st'
    by (rule cityhash64_loop_chunks [OF eff_len [OF l]])
  from l have "\<not> len \<le> 32" "\<not> len \<le> 64"
    by (simp_all add: word_less_nat_alt word_le_nat_alt)
  then show ?thesis
    unfolding cityhash64_def loop by simp
qed

section \<open>Results depend on the bytes of the view only: the 64-bit family\<close>

lemma in_bounds_sub:
  "in_bounds S s n \<Longrightarrow> 0 \<le> p - s \<Longrightarrow> p - s + int m \<le> int n \<Longrightarrow> in_bounds S p m"
  by (simp add: in_bounds_def)

lemma same_view_refl: "in_bounds S s n \<Longrightarrow> same_view S s S s n"
  by (simp add: same_view_def)

lemma same_view_sub:
  assumes sv: "same_view S1 s1 S2 s2 n"
    and rel: "p1 - s1 = p2 - s2" and lo: "0 \<le> p1 - s1" and hi: "p1 - s1 + int m \<le> int n"
  shows "same_view S1 p1 S2 p2 m"
proof -
  define k where "k = nat (p1 - s1)"
  from sv have b1: "in_bounds S1 s1 n" and b2: "in_bounds S2 s2 n"
    and eq: "take n (drop (nat s1) S1) = take n (drop (nat s2) S2)"
    by (simp_all add: same_view_def)
  have p1: "nat p1 = k + nat s1" and p2: "nat p2 = k + nat s2" and km: "k + m \<le> n"
    using rel lo hi b1 b2 unfolding k_def in_bounds_def by arith+
  have "take m (drop (nat p1) S1) = take m (drop k (take n (drop (nat s1) S1)))"
    using km by (simp add: p1 drop_take min_def add.commute)
  also have "\<dots> = take m (drop k (take n (drop (nat s2) S2)))"
    by (simp only: eq)
  also have "\<dots> = take m (drop (nat p2) S2)"
    using km by (simp add: p2 drop_take min_def add.commute)
  finally have "take m (drop (nat p1) S1) = take m (drop (nat p2) S2)" .
  moreover have "in_bounds S1 p1 m" using b1 lo hi by (rule in_bounds_sub)
  moreover have "in_bounds S2 p2 m" using b2 lo hi unfolding rel by (rule in_bounds_sub)
  ultimately show ?thesis by (simp add: same_view_def)
qed

lemma agree_Inr: "agree (Inr x) (Inr x)"
  by (simp add: agree_def)

lemma agree_fetch64: "same_view S1 p1 S2 p2 8 \<Longrightarrow> agree (fetch64 S1 p1) (fetch64 S2 p2)"
  by (simp add: agree_def same_view_def fetch64_def uload64_def)

lemma agree_fetch32: "same_view S1 p1 S2 p2 4 \<Longrightarrow> agree (fetch32 S1 p1) (fetch32 S2 p2)"
  by (simp add: agree_def same_view_def fetch32_def uload32_def)

lemma agree_load8: "same_view S1 p1 S2 p2 1 \<Longrightarrow> agree (load8 S1 p1) (load8 S2 p2)"
proof -
  assume sv: "same_view S1 p1 S2 p2 1"
  then have b: "in_bounds S1 p1 1" "in_bounds S2 p2 1"
    and eq: "take 1 (drop (nat p1) S1) = take 1 (drop (nat p2) S2)"
    by (simp_all add: same_view_def)
  from b have "nat p1 < length S1" "nat p2 < length S2"
    unfolding in_bounds_def by arith+
  then have "take 1 (drop (nat p1) S1) = [S1 ! nat p1]" "take 1 (drop (nat p2) S2) = [S2 ! nat p2]"
    by (simp_all add: take_Suc_conv_app_nth hd_drop_conv_nth take_Suc)
  with eq have "S1 ! nat p1 = S2 ! nat p2" by simp
  with b show ?thesis by (simp add: agree_def load8_def)
qed

lemma agree_rotate64: "0 < n \<Longrightarrow> n < 64 \<Longrightarrow> agree (rotate64 v n) (rotate64 v n)"
  by (simp add: rotate64_Inr agree_def)

lemma agree_seq:
  "agree m1 m2 \<Longrightarrow> (\<And>x. agree (f1 x) (f2 x)) \<Longrightarrow> agree (seq m1 f1) (seq m2 f2)"
  by (fastforce simp: agree_def seq_def)

lemma agree_Let: "(\<And>x. agree (f1 x) (f2 x)) \<Longrightarrow> agree (Let e f1) (Let e f2)"
  by simp

lemma agree_case_prod:
  "(\<And>a b. agree (f1 a b) (f2 a b)) \<Longrightarrow> agree (case_prod f1 p) (case_prod f2 p)"
  by (cases p) simp

lemma agree_if:
  "(c \<Longrightarrow> agree a1 a2) \<Longrightarrow> (\<not> c \<Longrightarrow> agree b1 b2)
    \<Longrightarrow> agree (if c then a1 else b1) (if c then a2 else b2)"
  by simp

lemmas agree_intros =
  agree_Inr agree_fetch64 agree_fetch32 agree_load8 agree_rotate64
  agree_seq agree_Let agree_case_prod agree_if

lemma agree_weak: "agree (weak_hash_32_with_seeds w x y z a b) (weak_hash_32_with_seeds w x y z a b)"
  unfolding weak_hash_32_with_seeds_def
  by (intro agree_intros) simp_all

lemma agree_weak_raw:
  assumes sv: "same_view S1 p1 S2 p2 32"
  shows "agree (weak_hash_32_with_seeds_raw S1 p1 a b) (weak_hash_32_with_seeds_raw S2 p2 a b)"
  unfolding weak_hash_32_with_seeds_raw_def
  by (intro agree_intros agree_weak; rule same_view_sub [OF sv]; simp)


lemma uint_half:
  fixes len :: "64 word"
  shows "uint (drop_bit (Suc 0) len) = uint len div 2"
  by (simp add: drop_bit_eq_div uint_div_distrib)

lemma agree_hash_0_to_16:
  assumes sv: "same_view S1 s1 S2 s2 (unat len)" and l: "len \<le> 16"
  shows "agree (hash_0_to_16 h S1 s1 len) (hash_0_to_16 h S2 s2 len)"
proof -
  from l have l': "uint len \<le> 16" by (simp add: word_le_def)
  show ?thesis
    unfolding hash_0_to_16_def
    by (intro agree_intros; (rule same_view_sub [OF sv])?;
        use l' in \<open>simp add: word_less_def word_le_def not_less not_le uint_half\<close>)
qed



lemma agree_chunk64:
  assumes sv: "same_view S1 p1 S2 p2 64"
  shows "agree (chunk64 S1 p1 st) (chunk64 S2 p2 st)"
  unfolding chunk64_def
  by (intro agree_intros agree_weak_raw; (rule same_view_sub [OF sv])?; simp)

lemma agree_chunks64:
  assumes "same_view S1 p1 S2 p2 (64 * n)"
  shows "agree (chunks64 S1 p1 n st) (chunks64 S2 p2 n st)"
  using assms
proof (induction n arbitrary: p1 p2 st)
  case 0
  show ?case by (simp add: agree_Inr)
next
  case (Suc n)
  note sv = Suc.prems
  have "agree (chunk64 S1 p1 st) (chunk64 S2 p2 st)"
    by (rule agree_chunk64, rule same_view_sub [OF sv]) simp_all
  moreover have "agree (chunks64 S1 (p1 + 64) n st') (chunks64 S2 (p2 + 64) n st')" for st'
    by (rule Suc.IH, rule same_view_sub [OF sv]) simp_all
  ultimately show ?case by (simp add: agree_seq)
qed



section \<open>Results depend on the bytes of the view only: the 128-bit family\<close>

lemma agree_case_sum:
  "agree m1 m2 \<Longrightarrow> (\<And>x. agree (f1 x) (f2 x))
    \<Longrightarrow> agree (case m1 of Inl e \<Rightarrow> Inl e | Inr x \<Rightarrow> f1 x)
              (case m2 of Inl e \<Rightarrow> Inl e | Inr x \<Rightarrow> f2 x)"
  by (fastforce simp: agree_def)

lemma agree_murmur_step:
  assumes sv: "same_view S1 p1 S2 p2 16"
  shows "agree (murmur_step S1 p1 st) (murmur_step S2 p2 st)"
  unfolding murmur_step_def
  by (intro agree_intros; (rule same_view_sub [OF sv])?; simp)

lemma agree_murmur_loop:
  assumes "0 < sint l" "same_view S1 p1 S2 p2 m" "sint l + 15 \<le> int m"
  shows "agree (murmur_loop S1 p1 l st) (murmur_loop S2 p2 l st)"
  using assms
proof (induction "nat (sint l)" arbitrary: l p1 p2 m st rule: less_induct)
  case less
  note sv = less.prems(2)
  have step: "agree (murmur_step S1 p1 st) (murmur_step S2 p2 st)" for st
    by (rule agree_murmur_step, rule same_view_sub [OF sv]) (use less.prems in simp_all)
  have s16: "sint (l - 16) = sint l - 16"
    by (rule sint_sub16) (use less.prems(1) in simp)
  have rest: "agree (if 0 <s l - 16 then murmur_loop S1 (p1 + 16) (l - 16) st' else Inr st')
                    (if 0 <s l - 16 then murmur_loop S2 (p2 + 16) (l - 16) st' else Inr st')"
    for st'
  proof (cases "0 <s l - 16")
    case True
    then have pos: "0 < sint (l - 16)" by (simp add: word_sless_alt)
    have "agree (murmur_loop S1 (p1 + 16) (l - 16) st') (murmur_loop S2 (p2 + 16) (l - 16) st')"
    proof (rule less.hyps [OF _ pos, where m = "m - 16"])
      show "nat (sint (l - 16)) < nat (sint l)"
        using pos s16 by simp
      show "same_view S1 (p1 + 16) S2 (p2 + 16) (m - 16)"
        by (rule same_view_sub [OF sv]) (use less.prems pos s16 in simp_all)
      show "sint (l - 16) + 15 \<le> int (m - 16)"
        using less.prems pos s16 by simp
    qed
    with True show ?thesis by simp
  next
    case False
    then show ?thesis by (simp add: agree_Inr)
  qed
  show ?case
    by (subst murmur_loop.simps, subst (2) murmur_loop.simps)
       (intro agree_case_sum step rest)
qed

lemma agree_city_murmur:
  assumes sv: "same_view S1 s1 S2 s2 (unat len)" and l: "len < 128"
  shows "agree (city_murmur h S1 s1 len seed) (city_murmur h S2 s2 len seed)"
proof (cases "len \<le> 16")
  case True
  then have l': "uint len \<le> 16" by (simp add: word_le_def)
  from True have b: "len - 16 \<le>s 0" by (simp add: murmur_branch [OF l])
  show ?thesis
    unfolding city_murmur_def Let_def if_P [OF b]
    by (intro agree_intros agree_hash_0_to_16 [OF sv True]; (rule same_view_sub [OF sv])?;
        use l' in \<open>simp add: word_le_def\<close>)
next
  case False
  then have l': "16 < uint len" by (simp add: word_le_def)
  from False have b: "\<not> len - 16 \<le>s 0" by (simp add: murmur_branch [OF l])
  have "0 \<le> uint len" by simp
  then have "- (2 ^ 63) + 16 \<le> sint len"
    unfolding sint_small [OF l] pow63 by linarith
  from sint_sub16 [OF this] have s: "sint (len - 16) = uint len - 16"
    by (simp add: sint_small [OF l])
  have loop: "agree (murmur_loop S1 s1 (len - 16) st) (murmur_loop S2 s2 (len - 16) st)" for st
    by (rule agree_murmur_loop [OF _ sv]) (use s l' in simp_all)
  show ?thesis
    unfolding city_murmur_def Let_def if_not_P [OF b]
    by (intro agree_intros loop; (rule same_view_sub [OF sv])?; use l' in simp)
qed

lemma agree_cityhash128_init:
  assumes sv: "same_view S1 s1 S2 s2 (unat len)" and l: "128 \<le> len"
  shows "agree (cityhash128_init S1 s1 len seed) (cityhash128_init S2 s2 len seed)"
proof -
  from l have l': "128 \<le> uint len" by (simp add: word_le_def)
  show ?thesis
    unfolding cityhash128_init_def
    by (intro agree_intros; (rule same_view_sub [OF sv])?; use l' in simp)
qed

lemma seq_assoc: "seq (seq m f) g = seq m (\<lambda>x. seq (f x) g)"
  by (cases m) (simp_all add: seq_def)

lemma cityhash128_loop_chunks:
  assumes "unat len div 128 = n" "0 < n"
  shows "cityhash128_loop S s len st =
           seq (chunks64 S s (2 * n) st)
               (\<lambda>st'. Inr (s + 128 * int n, len - 128 * of_nat n, st'))"
  using assms
proof (induction n arbitrary: s len st)
  case 0
  then show ?case by simp
next
  case (Suc n)
  have ge: "128 \<le> unat len"
  proof (rule ccontr)
    assume "\<not> 128 \<le> unat len"
    then have "unat len div 128 = 0" by simp
    with Suc.prems(1) show False by simp
  qed
  then have u: "unat (len - 128) = unat len - 128"
    using unat_sub_const [of 128 len] by simp
  from le_div_geq [OF _ ge] Suc.prems(1) have d: "unat (len - 128) div 128 = n"
    unfolding u by simp
  have "chunks64 S (s + 64) (Suc (2 * n)) =
      (\<lambda>x. seq (chunk64 S (s + 64) x) (chunks64 S (s + 128) (2 * n)))"
    by (rule ext) (simp add: ac_simps)
  then have two: "chunks64 S s (2 * Suc n) st =
      seq (seq (chunk64 S s st) (chunk64 S (s + 64))) (chunks64 S (s + 128) (2 * n))"
    by (simp add: seq_assoc)
  have e1: "s + 128 + 128 * int n = s + 128 * int (Suc n)"
    by simp
  have e2: "len - 128 - 128 * of_nat n = len - 128 * of_nat (Suc n)"
    by (simp add: algebra_simps)
  show ?case
  proof (cases "seq (chunk64 S s st) (chunk64 S (s + 64))")
    case (Inl e)
    then show ?thesis
      by (subst cityhash128_loop.simps) (simp only: two seq_Inl sum.case)
  next
    case (Inr st')
    show ?thesis
    proof (cases n)
      case 0
      with d have "unat (len - 128) < 128"
        by (simp add: div_eq_0_iff)
      then have "\<not> 128 \<le> len - 128"
        by (simp add: word_le_nat_alt)
      with Inr 0 show ?thesis unfolding two
        by (subst cityhash128_loop.simps) (simp add: seq_Inr)
    next
      case (Suc m)
      with d have "128 \<le> unat (len - 128)"
        using div_greater_zero_iff [of "unat (len - 128)" 128] by simp
      then have c: "128 \<le> len - 128"
        by (simp add: word_le_nat_alt)
      have "cityhash128_loop S (s + 128) (len - 128) st' =
           seq (chunks64 S (s + 128) (2 * n) st')
               (\<lambda>st''. Inr (s + 128 + 128 * int n, len - 128 - 128 * of_nat n, st''))"
        using Suc by (intro Suc.IH d) simp
      then show ?thesis unfolding e1 e2
        by (subst cityhash128_loop.simps) (simp only: Inr two seq_Inr sum.case c if_True)
    qed
  qed
qed

lemma agree_tail_step:
  assumes sv: "same_view S1 (s1 + uint len - uint td) S2 (s2 + uint len - uint td) 32"
  shows "agree (tail_step S1 s1 len td st) (tail_step S2 s2 len td st)"
  unfolding tail_step_def
  by (intro agree_intros agree_weak_raw sv; (rule same_view_sub [OF sv])?; simp)

lemma unat_add32:
  fixes td :: "64 word"
  assumes "unat td < 128"
  shows "unat (td + 32) = unat td + 32"
proof -
  have "unat td + unat (32 :: 64 word) < 2 ^ LENGTH(64)"
    using assms by simp
  then show ?thesis by (simp only: unat_add_lem) simp
qed

lemma agree_cityhash128_tail:
  assumes sv: "same_view S1 (s1 + uint len - 128) S2 (s2 + uint len - 128) 128"
    and l: "len < 128" and td: "unat td = 32 * k"
  shows "agree (cityhash128_tail S1 s1 len td st) (cityhash128_tail S2 s2 len td st)"
  using td
proof (induction "4 - k" arbitrary: k td st rule: less_induct)
  case less
  show ?case
  proof (cases "td < len")
    case False
    show ?thesis
      by (simp only: cityhash128_tail.simps [of S1 s1 len td st]
            cityhash128_tail.simps [of S2 s2 len td st] False if_False agree_Inr)
  next
    case True
    from l have l': "unat len < 128" by (simp add: word_less_nat_alt)
    from True have "unat td < unat len" by (simp add: word_less_nat_alt)
    with l' less.prems have k: "k \<le> 3" by simp
    have u: "unat (td + 32) = 32 * Suc k"
      using unat_add32 [of td] less.prems k by simp
    then have "int (unat (td + 32)) = int (32 * Suc k)"
      by (simp only:)
    then have ui: "uint (td + 32) = 32 * (int k + 1)"
      by simp
    have step: "agree (tail_step S1 s1 len (td + 32) st) (tail_step S2 s2 len (td + 32) st)"
      by (rule agree_tail_step, rule same_view_sub [OF sv]) (use ui k in simp_all)
    have rec: "agree (cityhash128_tail S1 s1 len (td + 32) st')
                     (cityhash128_tail S2 s2 len (td + 32) st')" for st'
      by (rule less.hyps [OF _ u]) (use k in simp)
    show ?thesis
      by (simp only: cityhash128_tail.simps [of S1 s1 len td st]
            cityhash128_tail.simps [of S2 s2 len td st] True if_True)
         (intro agree_case_sum step rec)
  qed
qed

lemma rem128:
  fixes len :: "64 word"
  assumes "unat len div 128 = n"
  shows "unat (len - 128 * of_nat n) = unat len mod 128"
proof -
  have "unat len div 128 * 128 \<le> unat len"
    by (rule div_times_less_eq_dividend)
  then have le: "128 * n \<le> unat len"
    unfolding assms by simp
  moreover have "unat len < 2 ^ 64" using unsigned_less [of len] by simp
  ultimately have "128 * n < 2 ^ 64" by simp
  then have "unat (128 * of_nat n :: 64 word) = 128 * n"
    by (simp add: unat_word_ariths unat_of_nat take_bit_eq_mod)
  with le have "unat (len - 128 * of_nat n) = unat len - 128 * n"
    by (simp add: unat_sub_const)
  also have "\<dots> = unat len mod 128"
    unfolding assms [symmetric] by (rule minus_mult_div_eq_mod)
  finally show ?thesis .
qed

lemma cityhash128_long_unfold:
  assumes l: "\<not> len < 128" and n: "unat len div 128 = n"
  shows "cityhash128_with_seed h S s len seed =
        seq (cityhash128_init S s len seed) (\<lambda>st0.
        seq (chunks64 S s (2 * n) st0) (\<lambda>st1.
        case st1 of (x0, y0, z, v0, w0) \<Rightarrow>
        seq (rotate64 (fst w0) 37) (\<lambda>r0.
        let y1 = y0 + (r0 * k0 + z) in
        seq (rotate64 (fst v0 + z) 49) (\<lambda>r1.
        let x1 = x0 + r1 * k0 in
        seq (cityhash128_tail S (s + 128 * int n) (len - 128 * of_nat n) 0
               (x1, y1, z, v0, w0)) (\<lambda>st2.
        case st2 of (x2, y2, z2, v, w) \<Rightarrow>
        let x = hash_16 h x2 (fst v);
            y = hash_16 h y2 (fst w)
        in Inr (hash_16 h (x + snd v) (snd w) + y,
                hash_16 h (x + snd w) (y + snd v)))))))"
proof -
  from l have "128 \<le> unat len" by (simp add: word_less_nat_alt)
  with n have "0 < n" using div_greater_zero_iff [of "unat len" 128] by simp
  note loop = cityhash128_loop_chunks [OF n this]
  show ?thesis
    unfolding cityhash128_with_seed_def if_not_P [OF l] loop
    by (simp only: seq_assoc seq_Inr prod.case)
qed

lemma agree_cityhash128_with_seed:
  assumes sv: "same_view S1 s1 S2 s2 (unat len)"
  shows "agree (cityhash128_with_seed h S1 s1 len seed) (cityhash128_with_seed h S2 s2 len seed)"
proof (cases "len < 128")
  case True
  then show ?thesis
    unfolding cityhash128_with_seed_def
    by (simp add: agree_city_murmur [OF sv])
next
  case False
  define n where "n = unat len div 128"
  then have n: "unat len div 128 = n" by simp
  from False have ge: "128 \<le> unat len" by (simp add: word_less_nat_alt)
  from False have gi: "128 \<le> uint len" by (simp add: word_less_def)
  have "unat len div 128 * 128 \<le> unat len"
    by (rule div_times_less_eq_dividend)
  then have le: "128 * int n \<le> int (unat len)"
    unfolding n by (simp only: of_nat_le_iff [symmetric]) simp?
  have "unat len mod 128 = unat len - 128 * (unat len div 128)"
    by (rule minus_mult_div_eq_mod [symmetric])
  then have r: "unat (len - 128 * of_nat n) = unat len - 128 * n"
    unfolding n rem128 [OF n] .
  have "unat (len - 128 * of_nat n) < 128"
    unfolding rem128 [OF n] by simp
  then have lt: "len - 128 * of_nat n < 128"
    by (simp add: word_less_nat_alt)
  have "128 * n \<le> unat len"
    using \<open>unat len div 128 * 128 \<le> unat len\<close> unfolding n by simp
  then have "int (unat len - 128 * n) = int (unat len) - int (128 * n)"
    by (rule of_nat_diff)
  then have "int (unat (len - 128 * of_nat n)) = int (unat len) - 128 * int n"
    unfolding r by simp
  then have ri: "uint (len - 128 * of_nat n) = uint len - 128 * int n"
    by simp
  have c: "agree (chunks64 S1 s1 (2 * n) st) (chunks64 S2 s2 (2 * n) st)" for st
    by (rule agree_chunks64, rule same_view_sub [OF sv]) (use le in simp_all)
  have t: "agree (cityhash128_tail S1 (s1 + 128 * int n) (len - 128 * of_nat n) 0 st)
                 (cityhash128_tail S2 (s2 + 128 * int n) (len - 128 * of_nat n) 0 st)" for st
    by (rule agree_cityhash128_tail [OF _ lt, where k = 0], rule same_view_sub [OF sv])
       (use ri gi in simp_all)
  from False have l: "128 \<le> len" by simp
  show ?thesis
    unfolding cityhash128_long_unfold [OF False n]
    by (intro agree_intros agree_cityhash128_init [OF sv l] c t) simp_all
qed

lemma same_view_empty: "same_view [] 0 [] 0 (unat (0 :: size_t))"
  by (simp add: same_view_def in_bounds_def)

lemma agree_cityhash128_with_seed_rest:
  assumes sv: "same_view S1 s1 S2 s2 (unat len)" and l: "16 \<le> len"
  shows "agree (cityhash128_with_seed h S1 (s1 + 16) (len - 16) seed)
                 (cityhash128_with_seed h S2 (s2 + 16) (len - 16) seed)"
proof -
  from l have "16 \<le> unat len" by (simp add: word_le_nat_alt)
  then have u: "unat (len - 16) = unat len - 16"
    using unat_sub_const [of 16 len] by simp
  from l have i: "16 \<le> uint len" by (simp add: word_le_def)
  have "int (unat len - 16) = int (unat len) - int 16"
    by (rule of_nat_diff) fact
  then have j: "int (unat len - 16) = uint len - 16" by simp
  show ?thesis
    by (rule agree_cityhash128_with_seed, rule same_view_sub [OF sv])
       (simp_all add: u i j)
qed

lemma agree_cityhash128:
  assumes sv: "same_view S1 s1 S2 s2 (unat len)"
  shows "agree (cityhash128 h S1 s1 len) (cityhash128 h S2 s2 len)"
proof (cases "16 \<le> len")
  case True
  then have i: "16 \<le> uint len" by (simp add: word_le_def)
  show ?thesis
    unfolding cityhash128_def if_P [OF True]
    by (intro agree_seq agree_fetch64 agree_cityhash128_with_seed_rest [OF sv True]; rule same_view_sub [OF sv];
        use i in simp)
next
  case False
  note f = this
  show ?thesis
  proof (cases "8 \<le> len")
    case True
    then have i: "8 \<le> uint len" by (simp add: word_le_def)
    show ?thesis
      unfolding cityhash128_def if_not_P [OF f] if_P [OF True]
      by (intro agree_seq agree_fetch64 agree_cityhash128_with_seed [OF same_view_empty];
          rule same_view_sub [OF sv]; use i in simp)
  next
    case False
    show ?thesis
      unfolding cityhash128_def if_not_P [OF f] if_not_P [OF False]
      by (rule agree_cityhash128_with_seed [OF sv])
  qed
qed

section \<open>The main loop of the 256-bit hash\<close>


section \<open>Runs on zero bytes\<close>




text \<open>A memory of 72 bytes, all zero but the first.\<close>

lemma fetch64_one_zeros:
  "1 \<le> p \<Longrightarrow> p \<le> 64 \<Longrightarrow> fetch64 (1 # replicate 71 0) p = Inr 0"
  "fetch64 (1 # replicate 71 0) 0 = Inr 1"
  by (simp_all add: fetch64_def uload64_def in_bounds_def drop_Cons' le_word_zeros)

section \<open>Seeded 64-bit hashing\<close>

text \<open>
  C1. For every memory, pointer, length and pair of seeds, \<^verbatim>\<open>cityhash64_with_seeds\<close>
  returns \<open>hash_16 (r - seed0) seed1\<close>, with the subtraction modulo \<open>2 ^ 64\<close>, where \<open>r\<close>
  is the result of \<^verbatim>\<open>cityhash64\<close> on the same input, and fails exactly as \<^verbatim>\<open>cityhash64\<close>
  fails; \<^verbatim>\<open>cityhash64_with_seed\<close> is \<^verbatim>\<open>cityhash64_with_seeds\<close> with first seed \<open>k2\<close>. The
  seeded hash depends on the input only through the unseeded hash.
\<close>

theorem cityhash64_seed_composition:
  "cityhash64_with_seeds h S s len seed0 seed1 =
     map_sum id (\<lambda>r. hash_16 h (r - seed0) seed1) (cityhash64 h S s len)
   \<and> cityhash64_with_seed h S s len seed = cityhash64_with_seeds h S s len k2 seed"
  by (cases "cityhash64 h S s len")
     (simp_all add: cityhash64_with_seeds_def cityhash64_with_seed_def seq_def)

section \<open>The empty input\<close>

text \<open>
  C2. \<^verbatim>\<open>cityhash64\<close> with length 0 returns the constant \<open>k2 = 0x9ae16a3b2f90404f\<close>,
  whatever the memory and the pointer are.
\<close>

theorem cityhash64_empty:
  "cityhash64 h S s 0 = Inr k2 \<and> k2 = 0x9ae16a3b2f90404f"
  by (simp add: cityhash64_def hash_0_to_16_def k2_def)

section \<open>Rotation\<close>

text \<open>
  C7, as amended. For every shift strictly between 0 and 64, \<^verbatim>\<open>rotate64\<close> returns the
  right rotation of the value by that many bits, which it computes by the formula
  \<^verbatim>\<open>(val >> shift) | (val << (64 - shift))\<close>. It has no special case for shift 0: there it
  evaluates the same formula, whose left shift by 64 is a shift by the full width of the
  type.
\<close>

theorem rotate64_right_rotation:
  "0 < shift \<Longrightarrow> shift < 64 \<Longrightarrow>
     rotate64 val shift = Inr (word_rotr (unat shift) val)
     \<and> rotate64 val shift
         = Inr (drop_bit (unat shift) val OR push_bit (64 - unat shift) val)
     \<and> rotate64 val 0 = Inl UndefinedShift"
proof (intro conjI)
  show "rotate64 val 0 = Inl UndefinedShift"
    by (simp add: rotate64_def shr64_def shl64_def seq_def)
qed (rule rotate64_rotr rotate64_Inr; assumption)+

theorem rotate64_right_rotation_witness:
  "(0 :: size_t) < 1 \<and> (1 :: size_t) < 64
   \<and> (rotate64 0x8000000000000001 1
        = Inr (word_rotr (unat (1 :: size_t)) 0x8000000000000001)
     \<and> rotate64 0x8000000000000001 1
        = Inr (drop_bit (unat (1 :: size_t)) 0x8000000000000001
               OR push_bit (64 - unat (1 :: size_t)) 0x8000000000000001)
     \<and> rotate64 0x8000000000000001 0 = Inl UndefinedShift)"
proof (intro conjI)
  show p: "(0 :: size_t) < 1" by simp
  show q: "(1 :: size_t) < 64" by simp
  note r = rotate64_right_rotation [OF p q, of "0x8000000000000001"]
  show "rotate64 0x8000000000000001 1
        = Inr (word_rotr (unat (1 :: size_t)) 0x8000000000000001)"
    by (rule conjunct1 [OF r])
  show "rotate64 0x8000000000000001 1
        = Inr (drop_bit (unat (1 :: size_t)) 0x8000000000000001
               OR push_bit (64 - unat (1 :: size_t)) 0x8000000000000001)"
    by (rule conjunct1 [OF conjunct2 [OF r]])
  show "rotate64 0x8000000000000001 0 = Inl UndefinedShift"
    by (rule conjunct2 [OF conjunct2 [OF r]])
qed

text \<open>The claim as stated has \<^verbatim>\<open>rotate64\<close> return the value unchanged at shift 0, by
  a special case. The function has none: with shift 0 it passes its assertion and
  evaluates \<^verbatim>\<open>(val >> 0) | (val << 64)\<close>, and the result is not the value.\<close>

theorem rotate64_shift_zero_counterexample:
  "rotate64 1 0 = Inl UndefinedShift \<and> rotate64 1 0 \<noteq> Inr 1"
  by (simp add: rotate64_def shr64_def shl64_def seq_def)

text \<open>
  C10. No execution of \<^verbatim>\<open>cityhash64\<close>, \<^verbatim>\<open>cityhash64_with_seed\<close>, \<^verbatim>\<open>cityhash64_with_seeds\<close>,
  \<^verbatim>\<open>cityhash128\<close> or \<^verbatim>\<open>cityhash128_with_seed\<close>, on any memory, pointer, length and seed,
  ends in the failed assertion or in the undefined shift of \<^verbatim>\<open>rotate64\<close>; and
  \<^verbatim>\<open>rotate64\<close> ends in one of the two exactly when its shift is 0 or at least 64. So
  every call of \<^verbatim>\<open>rotate64\<close> that these entry points make has a shift strictly between 0
  and 64.
\<close>

theorem rotate64_shift_in_range:
  "rot_safe (cityhash64 h S s len)
   \<and> rot_safe (cityhash64_with_seed h S s len seed1)
   \<and> rot_safe (cityhash64_with_seeds h S s len seed0 seed1)
   \<and> rot_safe (cityhash128 h S s len)
   \<and> rot_safe (cityhash128_with_seed h S s len seed)
   \<and> (rot_safe (rotate64 val shift) \<longleftrightarrow> 0 < shift \<and> shift < 64)"
proof -
  have "rot_safe (rotate64 val shift) \<longleftrightarrow> 0 < shift \<and> shift < 64"
  proof (cases "0 < shift \<and> shift < 64")
    case True
    then show ?thesis by (simp add: rot_safe_rotate64)
  next
    case False
    then have "shift = 0 \<or> \<not> shift < 64" by (auto simp: word_neq_0_conv)
    then have "\<not> rot_safe (rotate64 val shift)"
      by (auto simp: rot_safe_def rotate64_def shr64_def shl64_def seq_def)
    with False show ?thesis by simp
  qed
  then show ?thesis
    by (simp add: rot_safe_cityhash64 rot_safe_cityhash64_with_seeds
        rot_safe_cityhash128 rot_safe_cityhash128_with_seed cityhash64_with_seed_def)
qed

section \<open>The long path of the 64-bit hash\<close>

text \<open>
  C5, as amended. For every length above 64 the long path of \<^verbatim>\<open>cityhash64\<close> replaces the
  length by \<open>(len - 1) AND NOT 63\<close>, the largest multiple of 64 strictly below \<open>len\<close>, which
  is \<open>64 * ((len - 1) div 64)\<close>, and its loop applies the block-mixing step to that many
  consecutive 64-byte chunks from the front of the buffer: \<open>(len - 1) div 64\<close> chunks,
  at \<open>s\<close>, \<open>s + 64\<close>, and so on. When \<open>len\<close> is a multiple of 64 this is one chunk fewer
  than \<open>len div 64\<close>.
\<close>

theorem cityhash64_long_path:
  "64 < len \<Longrightarrow>
     unat ((len - 1) AND NOT 63) = 64 * ((unat len - 1) div 64)
     \<and> cityhash64_loop S s ((len - 1) AND NOT 63) st
         = chunks64 S s ((unat len - 1) div 64) st
     \<and> cityhash64 h S s len =
         seq (cityhash64_init S s len) (\<lambda>st0.
         seq (chunks64 S s ((unat len - 1) div 64) st0) (\<lambda>st.
         case st of (x, y, z, v, w) \<Rightarrow>
           Inr (hash_16 h (hash_16 h (fst v) (fst w) + smix y * k1 + z)
                          (hash_16 h (snd v) (snd w) + x))))"
proof -
  assume l: "64 < len"
  have "cityhash64_loop S s ((len - 1) AND NOT 63) st
          = chunks64 S s ((unat len - 1) div 64) st"
    by (rule cityhash64_loop_chunks [OF eff_len [OF l]])
  with eff_len(1) [OF l] cityhash64_long_unfold [OF l, of h S s] show ?thesis by simp
qed

theorem cityhash64_long_path_witness:
  "(64 :: size_t) < 128 \<and>
   (unat (((128 :: size_t) - 1) AND NOT 63) = 64 * ((unat (128 :: size_t) - 1) div 64)
     \<and> cityhash64_loop (replicate 128 0) 0 ((128 - 1) AND NOT 63) (1, 2, 3, (4, 5), (6, 7))
         = chunks64 (replicate 128 0) 0 ((unat (128 :: size_t) - 1) div 64)
             (1, 2, 3, (4, 5), (6, 7))
     \<and> cityhash64 (\<lambda>(u, v). u XOR v) (replicate 128 0) 0 128 =
         seq (cityhash64_init (replicate 128 0) 0 128) (\<lambda>st0.
         seq (chunks64 (replicate 128 0) 0 ((unat (128 :: size_t) - 1) div 64) st0) (\<lambda>st.
         case st of (x, y, z, v, w) \<Rightarrow>
           Inr (hash_16 (\<lambda>(u, v). u XOR v)
                  (hash_16 (\<lambda>(u, v). u XOR v) (fst v) (fst w) + smix y * k1 + z)
                  (hash_16 (\<lambda>(u, v). u XOR v) (snd v) (snd w) + x)))))"
proof
  show l: "(64 :: size_t) < 128" by simp
  from cityhash64_long_path [OF l]
  show "unat (((128 :: size_t) - 1) AND NOT 63) = 64 * ((unat (128 :: size_t) - 1) div 64)
     \<and> cityhash64_loop (replicate 128 0) 0 ((128 - 1) AND NOT 63) (1, 2, 3, (4, 5), (6, 7))
         = chunks64 (replicate 128 0) 0 ((unat (128 :: size_t) - 1) div 64)
             (1, 2, 3, (4, 5), (6, 7))
     \<and> cityhash64 (\<lambda>(u, v). u XOR v) (replicate 128 0) 0 128 =
         seq (cityhash64_init (replicate 128 0) 0 128) (\<lambda>st0.
         seq (chunks64 (replicate 128 0) 0 ((unat (128 :: size_t) - 1) div 64) st0) (\<lambda>st.
         case st of (x, y, z, v, w) \<Rightarrow>
           Inr (hash_16 (\<lambda>(u, v). u XOR v)
                  (hash_16 (\<lambda>(u, v). u XOR v) (fst v) (fst w) + smix y * k1 + z)
                  (hash_16 (\<lambda>(u, v). u XOR v) (snd v) (snd w) + x))))" .
qed

text \<open>At length 128 the claim as stated has the loop process \<open>128 div 64 = 2\<close> chunks. On
  128 zero bytes the registers after the loop of the source are those after one chunk,
  and they differ from the registers after two chunks.\<close>

lemma init_zeros_128:
  "cityhash64_init (replicate 128 0) 0 128 =
     Inr (W 16032829772954235392, W 167998162820528053, W 13880938718872576776,
          (W 128, W 14382137265376951924), (W 5285880019849656704, W 16907981789442584149))"
  by (simp add: cityhash64_init_def fetch64_zeros eval_simps W_simps
      cong: seq_weak_cong let_weak_cong prod.case_cong_weak)

lemma chunk_zeros_first:
  "chunk64 (replicate 128 0) 0
     (W 16032829772954235392, W 167998162820528053, W 13880938718872576776,
      (W 128, W 14382137265376951924), (W 5285880019849656704, W 16907981789442584149)) =
   Inr (W 10489531437709794291, W 15685553515303188615, W 17692196756333702862,
        (W 7911862196429878812, W 10717171680627719749),
        (W 8950769153442826824, W 16303338011899924372))"
  by (simp add: chunk64_def fetch64_zeros eval_simps W_simps
      cong: seq_weak_cong let_weak_cong prod.case_cong_weak)

lemma chunk_zeros_second:
  "chunk64 (replicate 128 0) 64
     (W 10489531437709794291, W 15685553515303188615, W 17692196756333702862,
      (W 7911862196429878812, W 10717171680627719749),
      (W 8950769153442826824, W 16303338011899924372)) =
   Inr (W 12571431411838903572, W 9290671830222425504, W 12266333435198965150,
        (W 2343720960157774591, W 1682351173864716918),
        (W 10428025350029276328, W 6894622432856990743))"
  by (simp add: chunk64_def fetch64_zeros eval_simps W_simps
      cong: seq_weak_cong let_weak_cong prod.case_cong_weak)

theorem cityhash64_chunk_count_counterexample:
  "seq (cityhash64_init (replicate 128 0) 0 128)
       (cityhash64_loop (replicate 128 0) 0 ((128 - 1) AND NOT 63))
   \<noteq> seq (cityhash64_init (replicate 128 0) 0 128)
         (chunks64 (replicate 128 0) 0 (unat (128 :: size_t) div 64))"
proof -
  have n: "unat (128 :: size_t) div 64 = Suc (Suc 0)" "(unat (128 :: size_t) - 1) div 64 = Suc 0"
    by simp_all
  have l: "(64 :: size_t) < 128" by simp
  have loop: "cityhash64_loop (replicate 128 0) 0 ((128 - 1) AND NOT 63) st
                = chunks64 (replicate 128 0) 0 (Suc 0) st" for st
    using cityhash64_loop_chunks [OF eff_len [OF l]] unfolding n .
  show ?thesis
    unfolding loop n init_zeros_128 seq_Inr chunks64.simps chunk_zeros_first
      chunk_zeros_second
    by (simp add: chunk_zeros_second seq_Inr W_eq)
qed

section \<open>Totality\<close>

lemma agree_self:
  assumes "agree r r'"
  shows "\<exists>x. r = Inr x"
  using assms by (auto simp: agree_def)





section \<open>Determinism\<close>








section \<open>The initial registers of the long path\<close>

lemma k1_inverse: "k1 * 2216894816998261435 = 1"
  by (simp add: k1_def W_simps)

lemma mult_k1_inject: "a * k1 = b * k1 \<longleftrightarrow> a = b"
proof
  assume "a * k1 = b * k1"
  then have "a * k1 * 2216894816998261435 = b * k1 * 2216894816998261435" by simp
  then show "a = b" by (simp only: mult.assoc k1_inverse mult_1_right)
qed simp

lemma word_rotr_inject: "word_rotr n a = word_rotr n b \<longleftrightarrow> a = b"
proof
  assume "word_rotr n a = word_rotr n b"
  then have "word_rotl n (word_rotr n a) = word_rotl n (word_rotr n b)" by simp
  then show "a = b" by simp
qed simp

lemma agree_Inr_both:
  assumes "agree r1 r2"
  obtains x where "r1 = Inr x" "r2 = Inr x"
  using assms by (auto simp: agree_def)

lemma fetch64_in_bounds:
  assumes "in_bounds S p 8"
  obtains x where "fetch64 S p = Inr x"
  using assms by (simp add: fetch64_def uload64_def)

lemma cityhash64_init_shape:
  assumes sv: "same_view S1 (s1 + uint len - 64) S2 (s2 + uint len - 64) 64"
    and b1: "in_bounds S1 s1 8" and b2: "in_bounds S2 s2 8"
  shows "\<exists>x1 x2 y z v w.
     cityhash64_init S1 s1 len = Inr (x1, y, z, v, w)
     \<and> cityhash64_init S2 s2 len = Inr (x2, y, z, v, w)
     \<and> (x1 = x2 \<longleftrightarrow> fetch64 S1 s1 = fetch64 S2 s2)"
proof -
  from b1 obtain a1 where a1: "fetch64 S1 s1 = Inr a1" by (rule fetch64_in_bounds)
  from b2 obtain a2 where a2: "fetch64 S2 s2 = Inr a2" by (rule fetch64_in_bounds)
  have "agree (fetch64 S1 (s1 + uint len - 16)) (fetch64 S2 (s2 + uint len - 16))"
    by (rule agree_fetch64, rule same_view_sub [OF sv]) simp_all
  then obtain f1 where f1: "fetch64 S1 (s1 + uint len - 16) = Inr f1"
      "fetch64 S2 (s2 + uint len - 16) = Inr f1"
    by (rule agree_Inr_both)
  have "agree (fetch64 S1 (s1 + uint len - 56)) (fetch64 S2 (s2 + uint len - 56))"
    by (rule agree_fetch64, rule same_view_sub [OF sv]) simp_all
  then obtain f2 where f2: "fetch64 S1 (s1 + uint len - 56) = Inr f2"
      "fetch64 S2 (s2 + uint len - 56) = Inr f2"
    by (rule agree_Inr_both)
  have "agree (weak_hash_32_with_seeds_raw S1 (s1 + uint len - 64) len (f1 XOR k1))
              (weak_hash_32_with_seeds_raw S2 (s2 + uint len - 64) len (f1 XOR k1))"
    by (rule agree_weak_raw, rule same_view_sub [OF sv]) simp_all
  then obtain v where v: "weak_hash_32_with_seeds_raw S1 (s1 + uint len - 64) len (f1 XOR k1) = Inr v"
      "weak_hash_32_with_seeds_raw S2 (s2 + uint len - 64) len (f1 XOR k1) = Inr v"
    by (rule agree_Inr_both)
  have "agree (weak_hash_32_with_seeds_raw S1 (s1 + uint len - 32) (len * k1) k0)
              (weak_hash_32_with_seeds_raw S2 (s2 + uint len - 32) (len * k1) k0)"
    by (rule agree_weak_raw, rule same_view_sub [OF sv]) simp_all
  then obtain w where w: "weak_hash_32_with_seeds_raw S1 (s1 + uint len - 32) (len * k1) k0 = Inr w"
      "weak_hash_32_with_seeds_raw S2 (s2 + uint len - 32) (len * k1) k0 = Inr w"
    by (rule agree_Inr_both)
  define z where "z = (f2 XOR k0) + smix (snd v) * k1"
  define y where "y = word_rotr 33 (f1 XOR k1) * k1"
  have r: "rotate64 x 39 = Inr (word_rotr 39 x)" "rotate64 x 33 = Inr (word_rotr 33 x)" for x
    using rotate64_rotr [of 39 x] rotate64_rotr [of 33 x] by simp_all
  have i1: "cityhash64_init S1 s1 len = Inr (word_rotr 39 (z + a1) * k1, y, z, v, w)"
    unfolding cityhash64_init_def Let_def a1 f1 f2 v w seq_Inr r z_def y_def ..
  have i2: "cityhash64_init S2 s2 len = Inr (word_rotr 39 (z + a2) * k1, y, z, v, w)"
    unfolding cityhash64_init_def Let_def a2 f1 f2 v w seq_Inr r z_def y_def ..
  have "word_rotr 39 (z + a1) * k1 = word_rotr 39 (z + a2) * k1 \<longleftrightarrow> a1 = a2"
    by (simp add: mult_k1_inject word_rotr_inject)
  with i1 i2 show ?thesis
    unfolding a1 a2 by simp
qed

text \<open>
  C6, as amended. For every length above 64, the initial registers \<open>y\<close>, \<open>z\<close>, \<open>v\<close> and \<open>w\<close>
  of the long path are determined by the last 64 bytes of the input and the length: two
  inputs of the same length that agree on their final 64 bytes have the same \<open>y\<close>, \<open>z\<close>,
  \<open>v\<close> and \<open>w\<close>. The register \<open>x\<close> also takes in the first 8 bytes, read by
  \<^verbatim>\<open>fetch64(s)\<close>: for such inputs the two values of \<open>x\<close> are equal exactly when the first
  8 bytes are.
\<close>

theorem cityhash64_init_registers:
  "64 < len \<Longrightarrow>
   same_view S1 (s1 + uint len - 64) S2 (s2 + uint len - 64) 64 \<Longrightarrow>
   in_bounds S1 s1 8 \<Longrightarrow> in_bounds S2 s2 8 \<Longrightarrow>
   \<exists>x1 x2 y z v w.
     cityhash64_init S1 s1 len = Inr (x1, y, z, v, w)
     \<and> cityhash64_init S2 s2 len = Inr (x2, y, z, v, w)
     \<and> (x1 = x2 \<longleftrightarrow> fetch64 S1 s1 = fetch64 S2 s2)"
  by (rule cityhash64_init_shape)

lemma view_72:
  "same_view (replicate 72 0) (0 + uint (72 :: size_t) - 64)
     (1 # replicate 71 0) (0 + uint (72 :: size_t) - 64) 64"
  by (simp add: same_view_def in_bounds_def)

theorem cityhash64_init_registers_witness:
  "(64 :: size_t) < 72
   \<and> same_view (replicate 72 0) (0 + uint (72 :: size_t) - 64)
        (1 # replicate 71 0) (0 + uint (72 :: size_t) - 64) 64
   \<and> in_bounds (replicate 72 0) 0 8 \<and> in_bounds (1 # replicate 71 0) 0 8
   \<and> (\<exists>x1 x2 y z v w.
     cityhash64_init (replicate 72 0) 0 72 = Inr (x1, y, z, v, w)
     \<and> cityhash64_init (1 # replicate 71 0) 0 72 = Inr (x2, y, z, v, w)
     \<and> (x1 = x2 \<longleftrightarrow> fetch64 (replicate 72 0) 0 = fetch64 (1 # replicate 71 0) 0))"
proof (intro conjI)
  show l: "(64 :: size_t) < 72" by simp
  show b1: "in_bounds (replicate 72 0) 0 8" by (simp add: in_bounds_def)
  show b2: "in_bounds (1 # replicate 71 0) 0 8" by (simp add: in_bounds_def)
  from cityhash64_init_registers [OF l view_72 b1 b2]
  show "\<exists>x1 x2 y z v w.
     cityhash64_init (replicate 72 0) 0 72 = Inr (x1, y, z, v, w)
     \<and> cityhash64_init (1 # replicate 71 0) 0 72 = Inr (x2, y, z, v, w)
     \<and> (x1 = x2 \<longleftrightarrow> fetch64 (replicate 72 0) 0 = fetch64 (1 # replicate 71 0) 0)" .
qed (rule view_72)

text \<open>The two inputs of 72 bytes below agree on their final 64 bytes and differ in their
  first byte. Their initial registers \<open>y\<close>, \<open>z\<close>, \<open>v\<close> and \<open>w\<close> are the same and their
  initial registers \<open>x\<close> differ.\<close>

lemma init_zeros_72:
  "cityhash64_init (replicate 72 0) 0 72 =
   Inr (W 320806211394174418, W 167998162820528053, W 11116629051127446652,
       (W 72, W 14381644684108987964), (W 14502522557233901656, W 4262934226934896162))"
  by (simp add: cityhash64_init_def Let_def fetch64_zeros eval_simps M_simps
      cong: seq_weak_cong let_weak_cong prod.case_cong_weak)

lemma init_one_zeros_72:
  "cityhash64_init (1 # replicate 71 0) 0 72 =
   Inr (W 16424888913122000338, W 167998162820528053, W 11116629051127446652,
       (W 72, W 14381644684108987964), (W 14502522557233901656, W 4262934226934896162))"
  by (simp add: cityhash64_init_def Let_def fetch64_one_zeros eval_simps M_simps
      cong: seq_weak_cong let_weak_cong prod.case_cong_weak)

theorem cityhash64_init_counterexample:
  "same_view (replicate 72 0) (0 + uint (72 :: size_t) - 64)
     (1 # replicate 71 0) (0 + uint (72 :: size_t) - 64) 64
   \<and> cityhash64_init (replicate 72 0) 0 72 =
       Inr (320806211394174418, 167998162820528053, 11116629051127446652,
           (72, 14381644684108987964), (14502522557233901656, 4262934226934896162))
   \<and> cityhash64_init (1 # replicate 71 0) 0 72 =
       Inr (16424888913122000338, 167998162820528053, 11116629051127446652,
           (72, 14381644684108987964), (14502522557233901656, 4262934226934896162))
   \<and> cityhash64_init (replicate 72 0) 0 72 \<noteq> cityhash64_init (1 # replicate 71 0) 0 72"
proof (intro conjI)
  show "same_view (replicate 72 0) (0 + uint (72 :: size_t) - 64)
     (1 # replicate 71 0) (0 + uint (72 :: size_t) - 64) 64"
    by (rule view_72)
qed (simp_all add: init_zeros_72 init_one_zeros_72 W_def)

section \<open>The composite 128-bit hasher\<close>

text \<open>
  C3. For every input of length at most 900, \<^verbatim>\<open>cityhash128_crc\<close> returns what
  \<^verbatim>\<open>cityhash128\<close> returns.
\<close>

theorem cityhash128_crc_delegates:
  "len \<le> 900 \<Longrightarrow>
     cityhash128_crc h crc Rotate Fetch64 S s len = cityhash128 h S s len"
  by (simp add: cityhash128_crc_def)

text \<open>On 900 zero bytes both sides are the same hash value.\<close>

theorem cityhash128_crc_delegates_witness:
  "(900 :: size_t) \<le> 900
   \<and> cityhash128_crc (\<lambda>(u, v). u + v) (\<lambda>c v. c XOR v) rotate64 fetch64 (replicate 900 0) 0 900
       = cityhash128 (\<lambda>(u, v). u + v) (replicate 900 0) 0 900
   \<and> (\<exists>r. cityhash128 (\<lambda>(u, v). u + v) (replicate 900 0) 0 900 = Inr r)"
proof (intro conjI)
  show l: "(900 :: size_t) \<le> 900" by simp
  from cityhash128_crc_delegates [OF l]
  show "cityhash128_crc (\<lambda>(u, v). u + v) (\<lambda>c v. c XOR v) rotate64 fetch64 (replicate 900 0) 0 900
       = cityhash128 (\<lambda>(u, v). u + v) (replicate 900 0) 0 900" .
  have "in_bounds (replicate 900 0) 0 (unat (900 :: size_t))"
    by (simp add: in_bounds_def)
  then have "same_view (replicate 900 0) 0 (replicate 900 0) 0 (unat (900 :: size_t))"
    by (rule same_view_refl)
  from agree_self [OF agree_cityhash128 [OF this]]
  show "\<exists>r. cityhash128 (\<lambda>(u, v). u + v) (replicate 900 0) 0 900 = Inr r" .
qed

section \<open>The composite 128-bit hasher on long inputs\<close>

text \<open>The hashes of 960 zero bytes are computed in this section, with \<open>u XOR v\<close> standing
  for \<^verbatim>\<open>hash_128_to_64\<close> and \<open>c + v\<close> for \<^verbatim>\<open>_mm_crc32_u64\<close>. At this length the main loop
  of \<^verbatim>\<open>cityhash256_crc_long\<close> runs four times and leaves no tail, so that \<^verbatim>\<open>Rotate\<close> and
  \<^verbatim>\<open>Fetch64\<close> are not called.\<close>

subsection \<open>The 256-bit hash of 960 zero bytes\<close>








subsection \<open>The plain 128-bit hash of 960 zero bytes\<close>





















subsection \<open>Inputs longer than 900 bytes\<close>




end
